theory Spec2Isabelle
  imports Complex_Main "HOL-Library.List_Lexorder" "HOL-Library.Char_ord" "HOL-Library.Product_Lexorder"
    "HOL-Library.Sublist"
begin

section \<open>Chunker (\<^verbatim>\<open>chunkText\<close>, lib/chunking as bundled in src/lib/fileVectordb.ts)\<close>

text \<open>
  A JavaScript string is a sequence of UTF-16 code units; the chunker only counts and
  slices them, so the code unit type is left as a type variable. JavaScript numbers
  that hold lengths, indices and the two parameters are integers (\<open>int\<close>): the
  validation of \<open>chunkSize\<close> and \<open>overlap\<close> is about their sign and order.
  A thrown \<^verbatim>\<open>Error(msg)\<close> is the value \<open>Inl (Error msg)\<close>.
\<close>

datatype error = Error string

record 'c TextChunk =
  text' :: "'c list"
  startIndex :: int
  endIndex :: int
  chunkIndex :: int

text \<open>\<^verbatim>\<open>String.prototype.slice(start, end)\<close>: a negative index counts from the end,
  every index is clamped to the string, and an empty range gives the empty string.\<close>

definition slice :: "'c list \<Rightarrow> int \<Rightarrow> int \<Rightarrow> 'c list" where
  "slice s start fin =
     (let len = int (length s);
          from = (if start < 0 then max (len + start) 0 else min start len);
          to = (if fin < 0 then max (len + fin) 0 else min fin len)
      in take (nat (to - from)) (drop (nat from) s))"

text \<open>\<^verbatim>\<open>Math.ceil(a / b)\<close> on integers with \<open>b > 0\<close>.\<close>

definition ceil_div :: "int \<Rightarrow> int \<Rightarrow> int" where
  "ceil_div a b = - ((- a) div b)"

text \<open>The \<^verbatim>\<open>while\<close> loop of \<^verbatim>\<open>chunkText\<close>; its state is
  \<^verbatim>\<open>startIndex\<close>, \<^verbatim>\<open>chunkIndex\<close>, \<^verbatim>\<open>iterations\<close> and the array
  \<^verbatim>\<open>chunks\<close>. The variables \<^verbatim>\<open>startIndex\<close>, \<^verbatim>\<open>endIndex\<close>,
  \<^verbatim>\<open>chunkIndex\<close> and \<^verbatim>\<open>chunkText\<close> of the source are \<open>start\<close>, \<open>fin\<close>,
  \<open>cidx\<close> and \<open>piece\<close> here: the first three names are the fields of the record,
  the fourth is the function. The field \<^verbatim>\<open>text\<close> is \<open>text'\<close>.\<close>

function chunkLoop ::
  "'c list \<Rightarrow> int \<Rightarrow> int \<Rightarrow> int \<Rightarrow> int \<Rightarrow> int \<Rightarrow> int \<Rightarrow> 'c TextChunk list \<Rightarrow> 'c TextChunk list"
where
  "chunkLoop txt chunkSize overlap maxChunks start cidx iterations chunks =
     (if start < int (length txt) \<and> iterations < maxChunks then
        (let fin = min (start + chunkSize) (int (length txt));
             piece = slice txt start fin;
             chunks' = (if length piece > 0
                        then chunks @ [\<lparr>text' = piece, startIndex = start,
                                        endIndex = fin, chunkIndex = cidx\<rparr>]
                        else chunks);
             nextStartIndex = fin - overlap;
             start' = (if nextStartIndex \<le> start then fin else nextStartIndex)
         in chunkLoop txt chunkSize overlap maxChunks start' (cidx + 1) (iterations + 1) chunks')
      else chunks)"
  by pat_completeness auto
termination
  by (relation "measure (\<lambda>(txt, chunkSize, overlap, maxChunks, start, cidx, iterations, chunks).
        nat (maxChunks - iterations))") auto

definition chunkText :: "'c list \<Rightarrow> int \<Rightarrow> int \<Rightarrow> error + 'c TextChunk list" where
  "chunkText txt chunkSize overlap =
     (if length txt = 0 then Inr []
      else if chunkSize \<le> 0 then Inl (Error ''chunkSize must be greater than 0'')
      else if overlap < 0 then Inl (Error ''overlap must be non-negative'')
      else if overlap \<ge> chunkSize
        then Inl (Error ''overlap must be less than chunkSize to prevent infinite loops'')
      else
        (let maxChunks = ceil_div (int (length txt)) (chunkSize - overlap) + 100
         in Inr (chunkLoop txt chunkSize overlap maxChunks 0 0 0 [])))"

section \<open>Vector store (src/lib/fileVectordb.ts)\<close>

text \<open>
  The table \<^verbatim>\<open>document_chunks\<close> is the list of its rows in the order of insertion
  (the order of their rowids). The column \<^verbatim>\<open>id\<close> is the primary key, and the
  module creates the index \<^verbatim>\<open>idx_document_id\<close> on \<^verbatim>\<open>document_id\<close>;
  the columns \<^verbatim>\<open>id\<close> and \<^verbatim>\<open>text\<close> are the fields \<open>row_id\<close> and \<open>row_text\<close>.
  An embedding is a value of a type variable \<open>'v\<close>: the conversion to and from the
  \<^verbatim>\<open>Float32Array\<close> blob is the identity of the model.
\<close>

record ('c, 'v) row =
  row_id :: string
  document_id :: string
  document_name :: string
  chunk_index :: int
  row_text :: "'c list"
  start_index :: int
  end_index :: int
  embedding :: 'v

text \<open>\<^verbatim>\<open>DocumentChunk\<close> has the fields of \<^verbatim>\<open>TextChunk\<close> and four more.\<close>

record ('c, 'v) DocumentChunk = "'c TextChunk" +
  id' :: string
  documentId :: string
  documentName :: string
  vector :: 'v

text \<open>A number inside a template literal is written in decimal.\<close>

fun show_nat :: "nat \<Rightarrow> string" where
  "show_nat n =
     (if n < 10 then [char_of (48 + n)]
      else show_nat (n div 10) @ [char_of (48 + n mod 10)])"

definition show_int :: "int \<Rightarrow> string" where
  "show_int i = (if i < 0 then CHR ''-'' # show_nat (nat (- i)) else show_nat (nat i))"

text \<open>The row id \<^verbatim>\<open>`${documentId}_${chunk.chunkIndex}`\<close>.\<close>

definition chunk_id :: "string \<Rightarrow> int \<Rightarrow> string" where
  "chunk_id docId idx = docId @ ''_'' @ show_int idx"

text \<open>\<^verbatim>\<open>DELETE FROM document_chunks WHERE document_id = ?\<close>: the table left, and
  \<^verbatim>\<open>changes\<close>, the number of rows removed.\<close>

definition delete_rows :: "('c, 'v) row list \<Rightarrow> string \<Rightarrow> ('c, 'v) row list \<times> nat" where
  "delete_rows db docId =
     (filter (\<lambda>r. document_id r \<noteq> docId) db,
      length (filter (\<lambda>r. document_id r = docId) db))"

text \<open>\<^verbatim>\<open>insertStmt.run\<close>: the statement throws when the primary key is taken.\<close>

definition insert_row :: "('c, 'v) row list \<Rightarrow> ('c, 'v) row \<Rightarrow> error + ('c, 'v) row list" where
  "insert_row db r =
     (if row_id r \<in> row_id ` set db
      then Inl (Error ''UNIQUE constraint failed: document_chunks.id'')
      else Inr (db @ [r]))"

text \<open>The body of the transaction: the rows of one batch whose embedding was produced
  (\<open>Some\<close>) are inserted in order; a \<^verbatim>\<open>null\<close> entry (\<open>None\<close>) is passed over. A throw
  leaves the transaction, which rolls back: the caller then keeps the table it had.\<close>

fun insert_batch ::
  "('c, 'v) row list \<Rightarrow> ('c, 'v) row option list \<Rightarrow> error + ('c, 'v) row list" where
  "insert_batch db [] = Inr db"
| "insert_batch db (None # batchData) = insert_batch db batchData"
| "insert_batch db (Some r # batchData) =
     (case insert_row db r of
        Inl e \<Rightarrow> Inl e
      | Inr db' \<Rightarrow> insert_batch db' batchData)"

text \<open>The callback of \<^verbatim>\<open>batch.map\<close> in \<^verbatim>\<open>indexDocument\<close>: a failure of
  \<^verbatim>\<open>generateEmbedding\<close> is caught and gives \<^verbatim>\<open>null\<close>.\<close>

definition embedChunk ::
  "('c list \<Rightarrow> error + 'v) \<Rightarrow> string \<Rightarrow> string \<Rightarrow> 'c TextChunk \<Rightarrow> ('c, 'v) row option" where
  "embedChunk generateEmbedding docId docName chunk =
     (case generateEmbedding (text' chunk) of
        Inl e \<Rightarrow> None
      | Inr emb \<Rightarrow>
          Some \<lparr>row_id = chunk_id docId (chunkIndex chunk), document_id = docId,
                document_name = docName, chunk_index = chunkIndex chunk,
                row_text = text' chunk, start_index = startIndex chunk,
                end_index = endIndex chunk, embedding = emb\<rparr>)"

text \<open>The result of \<^verbatim>\<open>indexDocument\<close>: the table it leaves, the \<^verbatim>\<open>changes\<close> of its
  \<^verbatim>\<open>DELETE\<close> (the number it logs as removed) and the error it rethrows, if any.\<close>

record ('c, 'v) index_result =
  table :: "('c, 'v) row list"
  removed :: nat
  thrown :: "error option"

text \<open>The batch loop \<^verbatim>\<open>for (let i = 0; i < chunks.length; i += batchSize)\<close> with
  \<open>batchSize = 5\<close>; \<open>chunks\<close> here is what is left from index \<open>i\<close> on.\<close>

function indexBatches ::
  "('c list \<Rightarrow> error + 'v) \<Rightarrow> string \<Rightarrow> string \<Rightarrow> ('c, 'v) row list \<Rightarrow> 'c TextChunk list
     \<Rightarrow> ('c, 'v) row list \<times> error option" where
  "indexBatches generateEmbedding docId docName db chunks =
     (if chunks = [] then (db, None)
      else
        (let batch = take 5 chunks;
             batchData = map (embedChunk generateEmbedding docId docName) batch
         in case insert_batch db batchData of
              Inl e \<Rightarrow> (db, Some e)
            | Inr db' \<Rightarrow> indexBatches generateEmbedding docId docName db' (drop 5 chunks)))"
  by pat_completeness auto
termination
  by (relation "measure (\<lambda>(generateEmbedding, docId, docName, db, chunks). length chunks)") auto

definition indexDocument ::
  "('c list \<Rightarrow> error + 'v) \<Rightarrow> ('c, 'v) row list \<Rightarrow> string \<Rightarrow> string \<Rightarrow> 'c list
     \<Rightarrow> ('c, 'v) index_result" where
  "indexDocument generateEmbedding db docId docName txt =
     (let (db1, changes) = delete_rows db docId
      in case chunkText txt 1000 200 of
           Inl e \<Rightarrow> \<lparr>table = db1, removed = changes, thrown = Some e\<rparr>
         | Inr chunks \<Rightarrow>
             if length chunks = 0 then \<lparr>table = db1, removed = changes, thrown = None\<rparr>
             else
               (let (db2, err) = indexBatches generateEmbedding docId docName db1 chunks
                in \<lparr>table = db2, removed = changes, thrown = err\<rparr>))"

text \<open>The object built from a row by \<^verbatim>\<open>searchSimilarChunks\<close> and
  \<^verbatim>\<open>getAllDocumentChunks\<close>.\<close>

definition rowToChunk :: "('c, 'v) row \<Rightarrow> ('c, 'v) DocumentChunk" where
  "rowToChunk r =
     \<lparr>text' = row_text r, startIndex = start_index r, endIndex = end_index r,
      chunkIndex = chunk_index r, id' = row_id r, documentId = document_id r,
      documentName = document_name r, vector = embedding r\<rparr>"

text \<open>
  \<^verbatim>\<open>rows.map(row => ({chunk, score: cosineSimilarity(queryEmbedding, embeddingArray)}))\<close>.
  The arithmetic of \<^verbatim>\<open>cosineSimilarity\<close> is floating point and is not modelled: the
  function is a parameter that either throws (vectors of different lengths) or returns
  the score, a real number. The map stops at the first throw.
\<close>

fun scoreRows ::
  "('v \<Rightarrow> 'v \<Rightarrow> error + real) \<Rightarrow> 'v \<Rightarrow> ('c, 'v) row list
     \<Rightarrow> error + (('c, 'v) DocumentChunk \<times> real) list" where
  "scoreRows cosineSimilarity queryEmbedding [] = Inr []"
| "scoreRows cosineSimilarity queryEmbedding (r # rows) =
     (case cosineSimilarity queryEmbedding (embedding r) of
        Inl e \<Rightarrow> Inl e
      | Inr score \<Rightarrow>
          (case scoreRows cosineSimilarity queryEmbedding rows of
             Inl e \<Rightarrow> Inl e
           | Inr scored \<Rightarrow> Inr ((rowToChunk r, score) # scored)))"

text \<open>
  The rows \<^verbatim>\<open>SELECT * FROM document_chunks WHERE document_id IN (...)\<close> returns. The
  query has no \<^verbatim>\<open>ORDER BY\<close>; SQLite answers it through \<^verbatim>\<open>idx_document_id\<close>, so
  the selected rows come grouped by \<^verbatim>\<open>document_id\<close>, the ids in ascending byte order,
  and in insertion order within one document: the stable sort by \<open>document_id\<close> of the
  selected rows. The query without \<^verbatim>\<open>WHERE\<close> scans the table and returns the rows in
  insertion order.
\<close>

definition select_by_document_ids :: "('c, 'v) row list \<Rightarrow> string list \<Rightarrow> ('c, 'v) row list" where
  "select_by_document_ids db ids =
     sort_key document_id (filter (\<lambda>r. document_id r \<in> set ids) db)"

text \<open>
  \<^verbatim>\<open>searchSimilarChunks(query, limit, documentIds?)\<close>. The \<^verbatim>\<open>WHERE\<close> clause is
  added only for a filter that is present and not empty. \<^verbatim>\<open>Array.prototype.sort\<close> is
  stable, and the comparator \<^verbatim>\<open>(a, b) => b.score - a.score\<close> orders by descending
  score: it is the stable insertion sort on the negated score.
  \<^verbatim>\<open>slice(0, limit)\<close> is the \<open>slice\<close> of the chunker, on an array.
\<close>

definition searchSimilarChunks ::
  "('c list \<Rightarrow> error + 'v) \<Rightarrow> ('v \<Rightarrow> 'v \<Rightarrow> error + real) \<Rightarrow> ('c, 'v) row list
     \<Rightarrow> 'c list \<Rightarrow> int \<Rightarrow> string list option \<Rightarrow> error + ('c, 'v) DocumentChunk list" where
  "searchSimilarChunks generateEmbedding cosineSimilarity db query limit documentIds =
     (case generateEmbedding query of
        Inl e \<Rightarrow> Inl e
      | Inr queryEmbedding \<Rightarrow>
          (let rows = (case documentIds of
                         None \<Rightarrow> db
                       | Some ids \<Rightarrow>
                           if length ids > 0
                           then select_by_document_ids db ids
                           else db)
           in if length rows = 0 then Inr []
              else
                (case scoreRows cosineSimilarity queryEmbedding rows of
                   Inl e \<Rightarrow> Inl e
                 | Inr scoredChunks \<Rightarrow>
                     Inr (map fst (slice (sort_key (\<lambda>item. - snd item) scoredChunks) 0 limit)))))"

text \<open>\<^verbatim>\<open>getAllDocumentChunks(documentIds)\<close>:
  \<^verbatim>\<open>ORDER BY document_id, chunk_index\<close> compares the ids byte by byte.\<close>

definition getAllDocumentChunks ::
  "('c, 'v) row list \<Rightarrow> string list \<Rightarrow> ('c, 'v) DocumentChunk list" where
  "getAllDocumentChunks db documentIds =
     (if length documentIds = 0 then []
      else map rowToChunk
             (sort_key (\<lambda>r. (document_id r, chunk_index r))
                (filter (\<lambda>r. document_id r \<in> set documentIds) db)))"

section \<open>Query classifier (\<^verbatim>\<open>isGeneralQuestion\<close>, src/app/api/chat/route.ts)\<close>

text \<open>
  The eight patterns use literals, alternation, sequence and one optional letter
  (\<^verbatim>\<open>contents?\<close>); a regular expression of that fragment is a value of \<open>regex\<close>.
  A \<open>char\<close> is one code unit of the question. Only ASCII code units can take part
  in a match of these patterns, and the model changes the case of ASCII letters only.
\<close>

datatype regex = Lit string | Alt regex regex | Seq regex regex | Opt regex

definition is_upper :: "char \<Rightarrow> bool" where
  "is_upper c \<longleftrightarrow> 65 \<le> (of_char c :: nat) \<and> (of_char c :: nat) \<le> 90"

definition is_lower :: "char \<Rightarrow> bool" where
  "is_lower c \<longleftrightarrow> 97 \<le> (of_char c :: nat) \<and> (of_char c :: nat) \<le> 122"

definition lower_char :: "char \<Rightarrow> char" where
  "lower_char c = (if is_upper c then char_of (of_char c + (32 :: nat)) else c)"

text \<open>The canonical form of a code unit under the flag \<^verbatim>\<open>i\<close>: its upper case.\<close>

definition upper_char :: "char \<Rightarrow> char" where
  "upper_char c = (if is_lower c then char_of (of_char c - (32 :: nat)) else c)"

definition toLowerCase :: "string \<Rightarrow> string" where
  "toLowerCase s = map lower_char s"

text \<open>White space and line terminators that fit a \<open>char\<close>: tab, line feed, vertical tab,
  form feed, carriage return, space and no-break space.\<close>

definition is_space :: "char \<Rightarrow> bool" where
  "is_space c \<longleftrightarrow> (of_char c :: nat) \<in> {9, 10, 11, 12, 13, 32, 160}"

definition trim :: "string \<Rightarrow> string" where
  "trim s = rev (dropWhile is_space (rev (dropWhile is_space s)))"

text \<open>The backtracking matcher: every way the pattern can match a prefix of the input,
  as the list of what is left of the input after the match.\<close>

fun matchPrefix :: "regex \<Rightarrow> string \<Rightarrow> string list" where
  "matchPrefix (Lit w) s =
     (if length w \<le> length s \<and> map upper_char (take (length w) s) = map upper_char w
      then [drop (length w) s] else [])"
| "matchPrefix (Alt a b) s = matchPrefix a s @ matchPrefix b s"
| "matchPrefix (Seq a b) s = concat (map (matchPrefix b) (matchPrefix a s))"
| "matchPrefix (Opt a) s = matchPrefix a s @ [s]"

text \<open>\<^verbatim>\<open>RegExp.prototype.test\<close> without the flags \<^verbatim>\<open>g\<close> and \<^verbatim>\<open>y\<close>: the pattern is
  tried at every start position, from the left.\<close>

fun test :: "regex \<Rightarrow> string \<Rightarrow> bool" where
  "test p [] = (matchPrefix p [] \<noteq> [])"
| "test p (c # cs) = (matchPrefix p (c # cs) \<noteq> [] \<or> test p cs)"

text \<open>\<^verbatim>\<open>(w1|w2|...)\<close> and the concatenation of the parts of a pattern.\<close>

fun alts :: "string list \<Rightarrow> regex" where
  "alts [] = Lit []"
| "alts [w] = Lit w"
| "alts (w # ws) = Alt (Lit w) (alts ws)"

fun seqs :: "regex list \<Rightarrow> regex" where
  "seqs [] = Lit []"
| "seqs [r] = r"
| "seqs (r # rs) = Seq r (seqs rs)"

definition generalPatterns :: "regex list" where
  "generalPatterns =
    [seqs [Lit ''what '', alts [''does'', ''is'', ''are'', ''do'', ''did'']],
     seqs [Lit ''what '', alts [''does'', ''is'', ''are'', ''do'', ''did''], Lit '' '',
           alts [''this'', ''that'', ''the''], Lit '' '', alts [''document'', ''file'', ''text'']],
     seqs [Lit ''what '', alts [''does'', ''is'', ''are'', ''do'', ''did''], Lit '' '',
           alts [''this'', ''that'', ''the''], Lit '' '', alts [''document'', ''file'', ''text''],
           Lit '' '', alts [''contain'', ''say'', ''include'', ''discuss'', ''cover'', ''describe'']],
     alts [''summarize'', ''summary'', ''summarise''],
     seqs [Lit ''what '', alts [''is'', ''are''], Lit '' '',
           alts [''in'', ''inside'', ''the content of'', ''the contents of'']],
     seqs [alts [''tell me'', ''describe'', ''explain''], Lit '' '', alts [''what'', ''about''],
           Lit '' '', alts [''this'', ''that'', ''the''], Lit '' '', alts [''document'', ''file'']],
     seqs [Alt (Lit ''overview'') (Alt (Seq (Lit ''content'') (Opt (Lit ''s''))) (Lit ''content'')),
           Lit '' '', alts [''of'', ''about''], Lit '' '', alts [''this'', ''that'', ''the''],
           Lit '' '', alts [''document'', ''file'']],
     seqs [Lit ''what '', alts [''is'', ''are''], Lit '' '', alts [''this'', ''that'', ''the''],
           Lit '' '', alts [''document'', ''file''], Lit '' '', alts [''about'', ''on'']]]"

definition isGeneralQuestion :: "string \<Rightarrow> bool" where
  "isGeneralQuestion question =
     (let lowerQuestion = trim (toLowerCase question)
      in list_ex (\<lambda>pattern. test pattern lowerQuestion) generalPatterns)"

section \<open>Retrieval (the handlers \<^verbatim>\<open>POST\<close> of the chat routes)\<close>

text \<open>\<^verbatim>\<open>Array.prototype.join\<close> on strings.\<close>

fun join :: "string \<Rightarrow> string list \<Rightarrow> string" where
  "join sep [] = []"
| "join sep [x] = x"
| "join sep (x # xs) = x @ sep @ join sep xs"

definition newline :: string where
  "newline = [CHR 0x0A]"

text \<open>
  The reducer that groups chunk texts by document name. The object \<^verbatim>\<open>chunksByDoc\<close> is
  the list of its entries in the order the keys were first added, which is the order
  \<^verbatim>\<open>Object.entries\<close> gives for names that are not written as array indices.
\<close>

definition addChunkText ::
  "(string \<times> string list) list \<Rightarrow> (char, 'v) DocumentChunk \<Rightarrow> (string \<times> string list) list" where
  "addChunkText acc chunk =
     (let docName = (if documentName chunk = [] then ''Unknown'' else documentName chunk)
      in if docName \<in> fst ` set acc
         then map (\<lambda>(name, texts). if name = docName then (name, texts @ [text' chunk])
                                    else (name, texts)) acc
         else acc @ [(docName, [text' chunk])])"

definition chunksByDoc :: "(char, 'v) DocumentChunk list \<Rightarrow> (string \<times> string list) list" where
  "chunksByDoc contextChunks = foldl addChunkText [] contextChunks"

definition buildContextText :: "(char, 'v) DocumentChunk list \<Rightarrow> string" where
  "buildContextText contextChunks =
     (if length contextChunks > 0
      then join (newline @ newline @ ''---'' @ newline @ newline)
             (map (\<lambda>(docName, chunks).
                     ''[Document: '' @ docName @ '']'' @ newline @ join (newline @ newline) chunks)
                (chunksByDoc contextChunks))
      else [])"

text \<open>
  The retrieval block of \<^verbatim>\<open>POST\<close>, the same in both handlers. The two functions it
  imports from the vector store are parameters; \<open>storeCalls\<close> lists the calls made to
  them, in order. \<open>searchFailed\<close> records that the \<^verbatim>\<open>catch\<close> of the block was
  entered: the assignments made before the throw stand.
\<close>

datatype store_call = SearchCall string int "string list" | AllChunksCall "string list"

record 'v retrieval =
  contextChunks :: "(char, 'v) DocumentChunk list"
  contextText :: string
  isGeneral :: bool
  storeCalls :: "store_call list"
  searchFailed :: bool

definition retrieveContext ::
  "(string \<Rightarrow> int \<Rightarrow> string list \<Rightarrow> error + (char, 'v) DocumentChunk list) \<Rightarrow>
   (string list \<Rightarrow> error + (char, 'v) DocumentChunk list) \<Rightarrow>
   string \<Rightarrow> string list option \<Rightarrow> int \<Rightarrow> 'v retrieval" where
  "retrieveContext search allChunksOf question documentIds limit =
     (let none = \<lparr>contextChunks = [], contextText = [], isGeneral = False, storeCalls = [],
                  searchFailed = False\<rparr>
      in case documentIds of
           None \<Rightarrow> none
         | Some ids \<Rightarrow>
             if length ids > 0 then
               (if isGeneralQuestion question then
                  (let generalLimit = 25 in
                   case search question generalLimit ids of
                     Inl e \<Rightarrow>
                       \<lparr>contextChunks = [], contextText = [], isGeneral = True,
                        storeCalls = [SearchCall question generalLimit ids], searchFailed = True\<rparr>
                   | Inr found \<Rightarrow>
                       if length found < 10 then
                         (case allChunksOf ids of
                            Inl e \<Rightarrow>
                              \<lparr>contextChunks = found, contextText = [], isGeneral = True,
                               storeCalls = [SearchCall question generalLimit ids, AllChunksCall ids],
                               searchFailed = True\<rparr>
                          | Inr allChunks \<Rightarrow>
                              \<lparr>contextChunks = slice allChunks 0 50,
                               contextText = buildContextText (slice allChunks 0 50),
                               isGeneral = True,
                               storeCalls = [SearchCall question generalLimit ids, AllChunksCall ids],
                               searchFailed = False\<rparr>)
                       else
                         \<lparr>contextChunks = found, contextText = buildContextText found,
                          isGeneral = True,
                          storeCalls = [SearchCall question generalLimit ids],
                          searchFailed = False\<rparr>)
                else
                  (case search question limit ids of
                     Inl e \<Rightarrow>
                       \<lparr>contextChunks = [], contextText = [], isGeneral = False,
                        storeCalls = [SearchCall question limit ids], searchFailed = True\<rparr>
                   | Inr found \<Rightarrow>
                       \<lparr>contextChunks = found, contextText = buildContextText found,
                        isGeneral = False,
                        storeCalls = [SearchCall question limit ids], searchFailed = False\<rparr>))
             else none)"

section \<open>Conversation loop and event stream (streaming \<^verbatim>\<open>POST\<close>, src/unnamed/part_000)\<close>

text \<open>\<^verbatim>\<open>error.message\<close> of a thrown \<^verbatim>\<open>Error\<close>.\<close>

fun error_message :: "error \<Rightarrow> string" where
  "error_message (Error msg) = msg"

text \<open>The request body after \<^verbatim>\<open>const { question, documentIds, limit = 5 } = body\<close>:
  \<open>body_question\<close> is \<open>None\<close> when the field is absent or not a string,
  \<open>body_limit\<close> is \<open>None\<close> when the field is absent (the default 5 then applies).\<close>

record body =
  body_question :: "string option"
  body_documentIds :: "string list option"
  body_limit :: "int option"

text \<open>An entry of the array \<^verbatim>\<open>searchWeb\<close> returns.\<close>

record search_result =
  title :: string
  snippet :: string
  url :: string

text \<open>A tool call of an assistant message: \<^verbatim>\<open>id\<close>, \<^verbatim>\<open>function.name\<close> and
  \<^verbatim>\<open>function.arguments\<close>.\<close>

record tool_call =
  call_id :: string
  call_name :: string
  call_arguments :: string

text \<open>The messages of the conversation. The three system prompts are fixed texts; they are
  named, not spelled out. In an assistant message the tool calls are an array that may
  have holes (\<open>None\<close>), as the streaming handler builds it by index.\<close>

datatype system_prompt = GeneralWithContext | SpecificWithContext | NoContext

datatype message =
    SystemMessage system_prompt
  | UserMessage string
  | AssistantMessage "string option" "tool_call option list"
  | ToolMessage string string

text \<open>What the model streams: a chunk carries a delta (or none), a delta carries a piece of
  content and pieces of tool calls, addressed by index. \<open>CreateThrows\<close> is a call of
  \<^verbatim>\<open>openai.chat.completions.create\<close> that throws; a stream may also throw after
  some chunks (the second argument of \<open>Stream\<close>).\<close>

record tool_call_delta =
  delta_index :: "nat option"
  delta_id :: "string option"
  delta_name :: "string option"
  delta_arguments :: "string option"

record delta =
  delta_content :: "string option"
  delta_tool_calls :: "tool_call_delta list option"

datatype completion = CreateThrows error | Stream "delta option list" "error option"

text \<open>The events \<^verbatim>\<open>sendSSE\<close> writes, with the fields of their payload, and the
  operations on the stream controller: \<^verbatim>\<open>enqueue\<close> of an event and \<^verbatim>\<open>close\<close>.\<close>

datatype sse_event =
    ToolStart string string
  | ToolEnd string string
  | Thinking string
  | Content string
  | Done bool nat bool
  | ErrorEvent string

datatype stream_op = Enqueue sse_event | Close

text \<open>The double quote, and what JavaScript takes for true in a string that may be absent.\<close>

definition dquote :: string where
  "dquote = [CHR 0x22]"

definition truthy :: "string option \<Rightarrow> bool" where
  "truthy s = (case s of None \<Rightarrow> False | Some x \<Rightarrow> x \<noteq> [])"

text \<open>The choice of the system prompt and the text of the user prompt.\<close>

definition systemPrompt :: "string \<Rightarrow> bool \<Rightarrow> system_prompt" where
  "systemPrompt ctxText general =
     (if ctxText \<noteq> [] then (if general then GeneralWithContext else SpecificWithContext)
      else NoContext)"

definition userPrompt :: "string \<Rightarrow> bool \<Rightarrow> string \<Rightarrow> string" where
  "userPrompt ctxText general question =
     (if ctxText \<noteq> [] then
        (if general then
           ''Context from documents:'' @ newline @ newline @ ctxText @ newline @ newline @
           ''Question: '' @ question @ newline @ newline @
           ''Based on the document context provided above, provide a comprehensive answer. For questions about document contents, summarize the key topics, themes, and important information found in the documents. Organize your response clearly. If you need additional information not in the documents, use the web search tool.''
         else
           ''Context from documents:'' @ newline @ newline @ ctxText @ newline @ newline @
           ''Question: '' @ question @ newline @ newline @
           ''Answer the question based on the context provided above. If you need to combine information from multiple chunks, do so to provide a complete answer. If the answer cannot be found in the context, use the web search tool to find the information.'')
      else
        ''Question: '' @ question @ newline @ newline @
        ''Note: No documents are available for context. Use web search if needed to answer the question.'')"

text \<open>The web search tool: the filter on the results, the numbered list sent back to the
  model, and the handling of one tool call named \<^verbatim>\<open>search_web\<close>. \<open>parseQuery\<close> is
  \<^verbatim>\<open>const { query } = JSON.parse(...)\<close>, which may throw. \<open>runSearchWeb\<close> gives the
  events sent, the tool message appended, and whether \<^verbatim>\<open>usedWebSearch\<close> was set; the
  \<^verbatim>\<open>catch\<close> of the tool call turns a throw into a tool message.\<close>

definition validResult :: "search_result \<Rightarrow> bool" where
  "validResult r \<longleftrightarrow>
     title r \<noteq> [] \<and> title r \<noteq> ''No results found'' \<and> title r \<noteq> ''Search Error'' \<and>
     snippet r \<noteq> [] \<and>
     \<not> sublist ''unable to'' (toLowerCase (snippet r)) \<and>
     \<not> sublist ''error'' (toLowerCase (snippet r))"

definition formatResult :: "nat \<Rightarrow> search_result \<Rightarrow> string" where
  "formatResult idx r =
     ''['' @ show_nat (idx + 1) @ ''] Title: '' @ title r @ newline @
     ''Description: '' @ snippet r @
     (if url r \<noteq> [] then newline @ ''URL: '' @ url r else [])"

definition searchResultsText :: "string \<Rightarrow> search_result list \<Rightarrow> string" where
  "searchResultsText query validResults =
     (if length validResults > 0
      then join (newline @ newline)
             (map (\<lambda>(idx, r). formatResult idx r) (enumerate 0 validResults))
      else ''The web search for '' @ dquote @ query @ dquote @
           '' did not return any useful results. The search may have been blocked, the query may need to be rephrased, or there may be no relevant information available online for this query.'')"

definition runSearchWeb ::
  "(string \<Rightarrow> error + string) \<Rightarrow> (string \<Rightarrow> nat \<Rightarrow> error + search_result list) \<Rightarrow> tool_call
     \<Rightarrow> sse_event list \<times> message \<times> bool" where
  "runSearchWeb parseQuery searchWeb toolCall =
     (case parseQuery (if call_arguments toolCall = [] then ''{}'' else call_arguments toolCall) of
        Inl e \<Rightarrow>
          ([ToolEnd ''web_search'' ''Web search error occurred''],
           ToolMessage (call_id toolCall) (''Error performing web search: '' @ error_message e),
           False)
      | Inr query \<Rightarrow>
          (case searchWeb query 5 of
             Inl e \<Rightarrow>
               ([ToolStart ''web_search'' (''Searching web for: '' @ query),
                 ToolEnd ''web_search'' ''Web search error occurred''],
                ToolMessage (call_id toolCall) (''Error performing web search: '' @ error_message e),
                False)
           | Inr searchResults \<Rightarrow>
               (let validResults = filter validResult searchResults
                in ([ToolStart ''web_search'' (''Searching web for: '' @ query),
                     ToolEnd ''web_search''
                       (''Found '' @ show_nat (length validResults) @ '' result(s)'')],
                    ToolMessage (call_id toolCall)
                      (''Web search performed for: '' @ dquote @ query @ dquote @ newline @ newline @
                       searchResultsText query validResults),
                    True))))"

text \<open>The state of one request: the operations performed on the stream controller so far,
  the message history, \<^verbatim>\<open>usedWebSearch\<close>, and the list of the chat-completion calls
  issued (each with the history it was given).\<close>

record chat_state =
  ops :: "stream_op list"
  history :: "message list"
  usedWebSearch :: bool
  modelCalls :: "message list list"

text \<open>\<^verbatim>\<open>for (const toolCall of toolCalls)\<close>. A hole of the array is
  \<^verbatim>\<open>undefined\<close>, and reading its \<^verbatim>\<open>function\<close> throws a \<^verbatim>\<open>TypeError\<close> (its text
  is the engine's); a tool call of another name is passed over.\<close>

fun runToolCalls ::
  "(string \<Rightarrow> error + string) \<Rightarrow> (string \<Rightarrow> nat \<Rightarrow> error + search_result list) \<Rightarrow>
   tool_call option list \<Rightarrow> chat_state \<Rightarrow> error option \<times> chat_state" where
  "runToolCalls parseQuery searchWeb [] st = (None, st)"
| "runToolCalls parseQuery searchWeb (None # rest) st =
     (Some (Error ''Cannot read properties of undefined''), st)"
| "runToolCalls parseQuery searchWeb (Some toolCall # rest) st =
     (if call_name toolCall = ''search_web'' then
        (let (events, reply, used) = runSearchWeb parseQuery searchWeb toolCall
         in runToolCalls parseQuery searchWeb rest
              (st\<lparr>ops := ops st @ map Enqueue events,
                  history := history st @ [reply],
                  usedWebSearch := (usedWebSearch st \<or> used)\<rparr>))
      else runToolCalls parseQuery searchWeb rest st)"

text \<open>The accumulation of the streamed tool-call pieces by index; an assignment past the
  end of the array leaves holes.\<close>

definition applyToolCallDelta :: "tool_call option list \<Rightarrow> tool_call_delta \<Rightarrow> tool_call option list" where
  "applyToolCallDelta toolCalls d =
     (let index = (case delta_index d of None \<Rightarrow> 0 | Some i \<Rightarrow> i);
          current = (if index < length toolCalls then toolCalls ! index else None);
          tc0 = (case current of
                   Some tc \<Rightarrow> tc
                 | None \<Rightarrow> \<lparr>call_id = (if truthy (delta_id d) then the (delta_id d) else []),
                             call_name = [], call_arguments = []\<rparr>);
          tc1 = (if truthy (delta_id d) then tc0\<lparr>call_id := the (delta_id d)\<rparr> else tc0);
          tc2 = (if truthy (delta_name d)
                 then tc1\<lparr>call_name := call_name tc1 @ the (delta_name d)\<rparr> else tc1);
          tc3 = (if truthy (delta_arguments d)
                 then tc2\<lparr>call_arguments := call_arguments tc2 @ the (delta_arguments d)\<rparr> else tc2)
      in if index < length toolCalls then toolCalls[index := Some tc3]
         else toolCalls @ replicate (index - length toolCalls) None @ [Some tc3])"

text \<open>\<^verbatim>\<open>for await (const chunk of completion)\<close>: the content so far, the tool calls so
  far, and the content events sent.\<close>

fun consumeStream ::
  "delta option list \<Rightarrow> string \<times> tool_call option list \<times> sse_event list
     \<Rightarrow> string \<times> tool_call option list \<times> sse_event list" where
  "consumeStream [] acc = acc"
| "consumeStream (None # chunks) acc = consumeStream chunks acc"
| "consumeStream (Some dl # chunks) (messageContent, toolCalls, events) =
     (let (messageContent', events') =
            (if truthy (delta_content dl)
             then (messageContent @ the (delta_content dl),
                   events @ [Content (the (delta_content dl))])
             else (messageContent, events));
          toolCalls' = (case delta_tool_calls dl of
                          None \<Rightarrow> toolCalls
                        | Some ds \<Rightarrow> foldl applyToolCallDelta toolCalls ds)
      in consumeStream chunks (messageContent', toolCalls', events'))"

text \<open>The loop \<^verbatim>\<open>while (iterationCount < maxIterations)\<close> of the streaming handler. The
  result is the error that left the loop, if any, and the state.\<close>

definition maxIterations :: nat where
  "maxIterations = 5"

function conversationLoop ::
  "(message list \<Rightarrow> nat \<Rightarrow> completion) \<Rightarrow> (string \<Rightarrow> error + string) \<Rightarrow>
   (string \<Rightarrow> nat \<Rightarrow> error + search_result list) \<Rightarrow> bool \<Rightarrow> nat \<Rightarrow> chat_state
     \<Rightarrow> error option \<times> chat_state" where
  "conversationLoop create parseQuery searchWeb general iterationCount st =
     (if iterationCount < maxIterations then
        (let iterationCount' = iterationCount + 1;
             st1 = (if iterationCount' = 1
                    then st\<lparr>ops := ops st @ [Enqueue (Thinking ''Processing your question...'')]\<rparr>
                    else st);
             st2 = st1\<lparr>modelCalls := modelCalls st1 @ [history st1]\<rparr>
         in case create (history st1) (if general then 2000 else 1000) of
              CreateThrows e \<Rightarrow> (Some e, st2)
            | Stream chunks failure \<Rightarrow>
                (case consumeStream chunks ([], [], []) of
                   (messageContent, toolCalls, events) \<Rightarrow>
                     (let st3 = st2\<lparr>ops := ops st2 @ map Enqueue events\<rparr>
                      in case failure of
                           Some e \<Rightarrow> (Some e, st3)
                         | None \<Rightarrow>
                             (let st4 = st3\<lparr>history := history st3 @
                                     [AssistantMessage
                                        (if messageContent = [] then None else Some messageContent)
                                        toolCalls]\<rparr>
                              in if length toolCalls > 0 then
                                   (case runToolCalls parseQuery searchWeb toolCalls st4 of
                                      (Some e, st5) \<Rightarrow> (Some e, st5)
                                    | (None, st5) \<Rightarrow>
                                        conversationLoop create parseQuery searchWeb general
                                          iterationCount' st5)
                                 else (None, st4)))))
      else (None, st))"
  by pat_completeness auto
termination
  by (relation "measure (\<lambda>(create, parseQuery, searchWeb, general, iterationCount, st).
        maxIterations - iterationCount)") auto

text \<open>
  What a request meets outside the handler: the parsed body (or the throw of
  \<^verbatim>\<open>request.json()\<close>), the two store functions, whether
  \<^verbatim>\<open>getOpenAIClient\<close> finds an API key, the chat-completion call, the parse of a
  tool call's arguments and the web search. The type of a completion is a parameter:
  a stream for the streaming handler, a message for the other.
\<close>

record ('v, 'k) env =
  env_requestJson :: "error + body"
  env_search :: "string \<Rightarrow> int \<Rightarrow> string list \<Rightarrow> error + (char, 'v) DocumentChunk list"
  env_allChunksOf :: "string list \<Rightarrow> error + (char, 'v) DocumentChunk list"
  env_openaiKey :: bool
  env_create :: "message list \<Rightarrow> nat \<Rightarrow> 'k"
  env_parseQuery :: "string \<Rightarrow> error + string"
  env_searchWeb :: "string \<Rightarrow> nat \<Rightarrow> error + search_result list"

text \<open>What the streaming handler did: the operations on the stream controller, in order,
  and the chat-completion calls issued.\<close>

record post_result =
  streamOps :: "stream_op list"
  completions :: "message list list"

text \<open>The two events around the retrieval block, sent only when the block is entered.\<close>

definition documentSearchEvents :: "string \<Rightarrow> string list option \<Rightarrow> 'v retrieval \<Rightarrow> sse_event list" where
  "documentSearchEvents question documentIds r =
     (if (case documentIds of None \<Rightarrow> False | Some ids \<Rightarrow> length ids > 0) then
        [ToolStart ''document_search''
           (''Searching documents for: '' @ take 100 question @
            (if length question > 100 then ''...'' else [])),
         ToolEnd ''document_search''
           (if searchFailed r then ''Error searching documents''
            else if length (contextChunks r) > 0 then
              ''Found '' @ show_nat (length (contextChunks r)) @ '' relevant chunks from '' @
              show_nat (length (chunksByDoc (contextChunks r))) @ '' document(s)''
            else ''No relevant chunks found'')]
      else [])"

text \<open>The body of \<^verbatim>\<open>start(controller)\<close>: every path ends by sending one
  \<^verbatim>\<open>done\<close> or \<^verbatim>\<open>error\<close> event and closing the controller. A client that
  disconnects is not modelled.\<close>

definition streamPOST :: "('v, completion) env \<Rightarrow> post_result" where
  "streamPOST env =
     (case env_requestJson env of
        Inl e \<Rightarrow>
          \<lparr>streamOps = [Enqueue (ErrorEvent (error_message e)), Close], completions = []\<rparr>
      | Inr body \<Rightarrow>
          if \<not> truthy (body_question body) then
            \<lparr>streamOps = [Enqueue (ErrorEvent ''Question is required and must be a string''), Close],
             completions = []\<rparr>
          else
            (let question = the (body_question body);
                 limit = (case body_limit body of None \<Rightarrow> 5 | Some l \<Rightarrow> l);
                 r = retrieveContext (env_search env) (env_allChunksOf env) question
                       (body_documentIds body) limit;
                 events = documentSearchEvents question (body_documentIds body) r
             in if \<not> env_openaiKey env then
                  \<lparr>streamOps = map Enqueue events @
                     [Enqueue (ErrorEvent ''OPENAI_API_KEY environment variable is not set''), Close],
                   completions = []\<rparr>
                else
                  (case conversationLoop (env_create env) (env_parseQuery env) (env_searchWeb env)
                          (isGeneral r) 0
                          \<lparr>ops = map Enqueue events,
                           history = [SystemMessage (systemPrompt (contextText r) (isGeneral r)),
                                      UserMessage (userPrompt (contextText r) (isGeneral r) question)],
                           usedWebSearch = False, modelCalls = []\<rparr> of
                     (Some e, st) \<Rightarrow>
                       \<lparr>streamOps = ops st @ [Enqueue (ErrorEvent (error_message e)), Close],
                        completions = modelCalls st\<rparr>
                   | (None, st) \<Rightarrow>
                       \<lparr>streamOps = ops st @
                          [Enqueue (Done (length (contextText r) > 0) (length (contextChunks r))
                                      (usedWebSearch st)), Close],
                        completions = modelCalls st\<rparr>)))"

section \<open>Conversation loop with a JSON answer (\<^verbatim>\<open>POST\<close>, src/app/api/chat/route.ts)\<close>

text \<open>
  The handler of src/app/api/chat/route.ts answers with one JSON document. Its
  retrieval block, prompts and tool handling are those of the streaming handler without
  the events; the completion is one message (or none), and the loop keeps the answer.
  \<open>answerLoop\<close> gives the answer and \<^verbatim>\<open>iterationCount\<close> on leaving the loop.
\<close>

record assistant_reply =
  reply_content :: "string option"
  reply_tool_calls :: "tool_call list"

datatype json_response = JsonOk string bool nat bool | JsonError nat string

record json_result =
  response :: json_response
  jsonCompletions :: "message list list"

function answerLoop ::
  "(message list \<Rightarrow> nat \<Rightarrow> error + assistant_reply option) \<Rightarrow> (string \<Rightarrow> error + string) \<Rightarrow>
   (string \<Rightarrow> nat \<Rightarrow> error + search_result list) \<Rightarrow> bool \<Rightarrow> nat \<Rightarrow> chat_state
     \<Rightarrow> (error + string \<times> nat) \<times> chat_state" where
  "answerLoop create parseQuery searchWeb general iterationCount st =
     (if iterationCount < maxIterations then
        (let iterationCount' = iterationCount + 1;
             st2 = st\<lparr>modelCalls := modelCalls st @ [history st]\<rparr>
         in case create (history st) (if general then 2000 else 1000) of
              Inl e \<Rightarrow> (Inl e, st2)
            | Inr None \<Rightarrow>
                (Inr (''I apologize, but I could not generate an answer.'', iterationCount'), st2)
            | Inr (Some reply) \<Rightarrow>
                (let st3 = st2\<lparr>history := history st2 @
                              [AssistantMessage (reply_content reply)
                                 (map Some (reply_tool_calls reply))]\<rparr>
                 in if length (reply_tool_calls reply) > 0 then
                      (case runToolCalls parseQuery searchWeb (map Some (reply_tool_calls reply)) st3 of
                         (Some e, st4) \<Rightarrow> (Inl e, st4)
                       | (None, st4) \<Rightarrow>
                           answerLoop create parseQuery searchWeb general iterationCount' st4)
                    else
                      (Inr (if truthy (reply_content reply) then the (reply_content reply)
                            else ''I apologize, but I could not generate an answer.'',
                            iterationCount'), st3)))
      else (Inr ([], iterationCount), st))"
  by pat_completeness auto
termination
  by (relation "measure (\<lambda>(create, parseQuery, searchWeb, general, iterationCount, st).
        maxIterations - iterationCount)") auto

definition jsonPOST :: "('v, error + assistant_reply option) env \<Rightarrow> json_result" where
  "jsonPOST env =
     (case env_requestJson env of
        Inl e \<Rightarrow> \<lparr>response = JsonError 500 (error_message e), jsonCompletions = []\<rparr>
      | Inr body \<Rightarrow>
          if \<not> truthy (body_question body) then
            \<lparr>response = JsonError 400 ''Question is required and must be a string'',
             jsonCompletions = []\<rparr>
          else
            (let question = the (body_question body);
                 limit = (case body_limit body of None \<Rightarrow> 5 | Some l \<Rightarrow> l);
                 r = retrieveContext (env_search env) (env_allChunksOf env) question
                       (body_documentIds body) limit
             in if \<not> env_openaiKey env then
                  \<lparr>response = JsonError 500 ''OPENAI_API_KEY environment variable is not set'',
                   jsonCompletions = []\<rparr>
                else
                  (case answerLoop (env_create env) (env_parseQuery env) (env_searchWeb env)
                          (isGeneral r) 0
                          \<lparr>ops = [],
                           history = [SystemMessage (systemPrompt (contextText r) (isGeneral r)),
                                      UserMessage (userPrompt (contextText r) (isGeneral r) question)],
                           usedWebSearch = False, modelCalls = []\<rparr> of
                     (Inl e, st) \<Rightarrow>
                       \<lparr>response = JsonError 500 (error_message e),
                        jsonCompletions = modelCalls st\<rparr>
                   | (Inr (answer, iterationCount), st) \<Rightarrow>
                       \<lparr>response =
                          JsonOk (if iterationCount \<ge> maxIterations \<and> answer = []
                                  then ''I apologize, but I encountered an issue while processing your request. Please try again.''
                                  else answer)
                            (length (contextText r) > 0) (length (contextChunks r))
                            (usedWebSearch st),
                        jsonCompletions = modelCalls st\<rparr>)))"

section \<open>Predicates and example data used in the statements\<close>

text \<open>A span is acceptable for a window size when it is non-empty and no longer than the
  window.\<close>

definition span_ok :: "int \<Rightarrow> 'c TextChunk \<Rightarrow> bool" where
  "span_ok chunkSize c \<longleftrightarrow>
     text' c \<noteq> [] \<and> startIndex c < endIndex c \<and> endIndex c - startIndex c \<le> chunkSize"

text \<open>A chunk is read off the text when its \<open>text'\<close> is the slice between its indices
  and its end is the window end clipped to the text.\<close>

definition chunk_good :: "'c list \<Rightarrow> int \<Rightarrow> 'c TextChunk \<Rightarrow> bool" where
  "chunk_good txt chunkSize c \<longleftrightarrow>
     text' c = slice txt (startIndex c) (endIndex c) \<and>
     endIndex c = min (startIndex c + chunkSize) (int (length txt))"

text \<open>Position \<open>p\<close> of the text lies inside one of the spans.\<close>

definition covered :: "'c TextChunk list \<Rightarrow> int \<Rightarrow> bool" where
  "covered cs p \<longleftrightarrow> (\<exists>c\<in>set cs. startIndex c \<le> p \<and> p < endIndex c)"

text \<open>The iterations the loop still needs fit under the safety limit: either the
  unclipped windows that remain plus the tail fit, or the loop is in its last window.\<close>

definition budget_ok :: "int \<Rightarrow> int \<Rightarrow> int \<Rightarrow> int \<Rightarrow> int \<Rightarrow> int \<Rightarrow> bool" where
  "budget_ok len chunkSize overlap maxChunks start iterations \<longleftrightarrow>
     iterations + ceil_div (len - start) (chunkSize - overlap) + 1 \<le> maxChunks \<or>
     (len - overlap \<le> start \<and> iterations + 1 \<le> maxChunks)"

text \<open>The score \<^verbatim>\<open>searchSimilarChunks\<close> gives a chunk: what
  \<^verbatim>\<open>cosineSimilarity(queryEmbedding, chunk.vector)\<close> returns.\<close>

definition score_of :: "('v \<Rightarrow> 'v \<Rightarrow> error + real) \<Rightarrow> 'v \<Rightarrow> ('c, 'v) DocumentChunk \<Rightarrow> real" where
  "score_of cosineSimilarity queryEmbedding c =
     (case cosineSimilarity queryEmbedding (vector c) of Inl e \<Rightarrow> 0 | Inr s \<Rightarrow> s)"

text \<open>The rows \<^verbatim>\<open>searchSimilarChunks\<close> loads, in the order the query returns them:
  the whole table in insertion order, or, when the list is present and not empty, the
  rows of the listed documents in the order of \<open>select_by_document_ids\<close>.\<close>

definition candidates :: "('c, 'v) row list \<Rightarrow> string list option \<Rightarrow> ('c, 'v) row list" where
  "candidates db documentIds =
     (case documentIds of
        None \<Rightarrow> db
      | Some ids \<Rightarrow> if ids = [] then db else select_by_document_ids db ids)"

text \<open>A small table for the concrete runs: three rows of two documents, embeddings that
  are natural numbers, and a score that is the number itself.\<close>

definition demo_row :: "string \<Rightarrow> int \<Rightarrow> nat \<Rightarrow> (char, nat) row" where
  "demo_row docId idx emb =
     \<lparr>row_id = chunk_id docId idx, document_id = docId, document_name = docId,
      chunk_index = idx, row_text = ''t'', start_index = 0, end_index = 1, embedding = emb\<rparr>"

definition demo_db :: "(char, nat) row list" where
  "demo_db = [demo_row ''a'' 0 1, demo_row ''b'' 0 2, demo_row ''a'' 1 1]"

text \<open>A table of two rows of equal score, the row of document \<open>b\<close> inserted first.\<close>

definition demo_ties_db :: "(char, nat) row list" where
  "demo_ties_db = [demo_row ''b'' 0 1, demo_row ''a'' 0 1]"

definition demo_embed :: "string \<Rightarrow> error + nat" where
  "demo_embed q = Inr 0"

definition demo_sim :: "nat \<Rightarrow> nat \<Rightarrow> error + real" where
  "demo_sim q v = Inr (real v)"

text \<open>The invariant of the table: every row id is the composite of the row's document
  id and chunk index, as \<^verbatim>\<open>indexDocument\<close>, the only writer of rows, builds it.\<close>

definition wf_ids :: "('c, 'v) row list \<Rightarrow> bool" where
  "wf_ids db \<longleftrightarrow> (\<forall>r\<in>set db. row_id r = chunk_id (document_id r) (chunk_index r))"

text \<open>The rows stored for one document.\<close>

definition stored :: "('c, 'v) row list \<Rightarrow> string \<Rightarrow> ('c, 'v) row list" where
  "stored db docId = filter (\<lambda>r. document_id r = docId) db"

text \<open>An embedding provider that is down.\<close>

definition demo_fail :: "string \<Rightarrow> error + nat" where
  "demo_fail q = Inl (Error ''embedding service unavailable'')"

text \<open>The words a pattern matches, and the patterns all of whose literals are free of
  upper-case letters.\<close>

fun lang :: "regex \<Rightarrow> string set" where
  "lang (Lit w) = {w}"
| "lang (Alt a b) = lang a \<union> lang b"
| "lang (Seq a b) = {u @ v | u v. u \<in> lang a \<and> v \<in> lang b}"
| "lang (Opt a) = insert [] (lang a)"

fun lower_regex :: "regex \<Rightarrow> bool" where
  "lower_regex (Lit w) = list_all (\<lambda>c. \<not> is_upper c) w"
| "lower_regex (Alt a b) = (lower_regex a \<and> lower_regex b)"
| "lower_regex (Seq a b) = (lower_regex a \<and> lower_regex b)"
| "lower_regex (Opt a) = lower_regex a"

text \<open>The store functions as the handlers see them, on the example table; and a search
  that finds ten chunks.\<close>

definition demo_search :: "string \<Rightarrow> int \<Rightarrow> string list \<Rightarrow> error + (char, nat) DocumentChunk list" where
  "demo_search query k ids = searchSimilarChunks demo_embed demo_sim demo_db query k (Some ids)"

definition demo_allChunks :: "string list \<Rightarrow> error + (char, nat) DocumentChunk list" where
  "demo_allChunks ids = Inr (getAllDocumentChunks demo_db ids)"

definition demo_many :: "string \<Rightarrow> int \<Rightarrow> string list \<Rightarrow> error + (char, nat) DocumentChunk list" where
  "demo_many query k ids = Inr (replicate 10 (rowToChunk (demo_row ''a'' 0 1)))"

text \<open>The terminal events of the stream, and a run of operations that only enqueues
  events that are not terminal.\<close>

fun terminal :: "sse_event \<Rightarrow> bool" where
  "terminal (Done hasContext chunksUsed used) = True"
| "terminal (ErrorEvent msg) = True"
| "terminal ev = False"

definition progress_only :: "stream_op list \<Rightarrow> bool" where
  "progress_only os \<longleftrightarrow> (\<exists>evs. os = map Enqueue evs \<and> (\<forall>ev\<in>set evs. \<not> terminal ev))"

text \<open>A request without documents whose model asks for the web search tool in every round,
  for each of the two handlers; the web search finds nothing. \<open>tool_round_ops\<close> is what
  one such round writes to the stream.\<close>

definition demo_body :: body where
  "demo_body = \<lparr>body_question = Some ''hi'', body_documentIds = None, body_limit = None\<rparr>"

definition demo_tool_delta :: delta where
  "demo_tool_delta =
     \<lparr>delta_content = None,
      delta_tool_calls = Some [\<lparr>delta_index = Some 0, delta_id = Some ''call_1'',
                                delta_name = Some ''search_web'', delta_arguments = Some ''q''\<rparr>]\<rparr>"

definition tools_stream_env :: "(nat, completion) env" where
  "tools_stream_env =
     \<lparr>env_requestJson = Inr demo_body, env_search = demo_search, env_allChunksOf = demo_allChunks,
      env_openaiKey = True,
      env_create = (\<lambda>msgs maxTokens. Stream [Some demo_tool_delta] None),
      env_parseQuery = (\<lambda>arguments. Inr ''x''),
      env_searchWeb = (\<lambda>query maxResults. Inr [])\<rparr>"

definition tools_json_env :: "(nat, error + assistant_reply option) env" where
  "tools_json_env =
     \<lparr>env_requestJson = Inr demo_body, env_search = demo_search, env_allChunksOf = demo_allChunks,
      env_openaiKey = True,
      env_create = (\<lambda>msgs maxTokens.
         Inr (Some \<lparr>reply_content = None,
                     reply_tool_calls = [\<lparr>call_id = ''call_1'', call_name = ''search_web'',
                                           call_arguments = ''q''\<rparr>]\<rparr>)),
      env_parseQuery = (\<lambda>arguments. Inr ''x''),
      env_searchWeb = (\<lambda>query maxResults. Inr [])\<rparr>"

definition tool_round_ops :: "stream_op list" where
  "tool_round_ops =
     [Enqueue (ToolStart ''web_search'' ''Searching web for: x''),
      Enqueue (ToolEnd ''web_search'' ''Found 0 result(s)'')]"

section \<open>Properties of the chunker\<close>

declare chunkLoop.simps [simp del]

lemma slice_inrange:
  "0 \<le> s \<Longrightarrow> s \<le> e \<Longrightarrow> e \<le> int (length t) \<Longrightarrow> slice t s e = take (nat (e - s)) (drop (nat s) t)"
  by (simp add: slice_def Let_def min_def max_def)

lemma length_slice:
  "0 \<le> s \<Longrightarrow> s \<le> e \<Longrightarrow> e \<le> int (length t) \<Longrightarrow> length (slice t s e) = nat (e - s)"
  by (simp add: slice_inrange)

lemma chunkLoop_spans:
  "0 < cs \<Longrightarrow> 0 \<le> s \<Longrightarrow>
   (\<forall>c\<in>set chunks. span_ok cs c \<and> startIndex c < s) \<Longrightarrow>
   sorted_wrt (<) (map startIndex chunks) \<Longrightarrow>
   (\<forall>c\<in>set (chunkLoop t cs ov M s k i chunks). span_ok cs c) \<and>
   sorted_wrt (<) (map startIndex (chunkLoop t cs ov M s k i chunks))"
proof (induction t cs ov M s k i chunks rule: chunkLoop.induct)
  case (1 t cs ov M s k i chunks)
  show ?case
  proof (cases "s < int (length t) \<and> i < M")
    case False
    then have "chunkLoop t cs ov M s k i chunks = chunks"
      by (subst chunkLoop.simps) auto
    then show ?thesis using "1.prems" by simp
  next
    case True
    define fin where "fin = min (s + cs) (int (length t))"
    define piece where "piece = slice t s fin"
    define chunks' where "chunks' = (if length piece > 0
                        then chunks @ [\<lparr>text' = piece, startIndex = s,
                                        endIndex = fin, chunkIndex = k\<rparr>]
                        else chunks)"
    define s' where "s' = (if fin - ov \<le> s then fin else fin - ov)"
    have fin: "s < fin" "fin \<le> int (length t)" "fin - s \<le> cs"
      using True "1.prems" by (auto simp: fin_def)
    have len: "length piece = nat (fin - s)"
      unfolding piece_def using fin "1.prems" by (simp add: length_slice)
    have s': "s < s'" using fin by (simp add: s'_def)
    have unf: "chunkLoop t cs ov M s k i chunks = chunkLoop t cs ov M s' (k + 1) (i + 1) chunks'"
      using True by (subst chunkLoop.simps) (simp add: Let_def fin_def piece_def chunks'_def s'_def)
    have c'eq: "chunks' = chunks @ [\<lparr>text' = piece, startIndex = s, endIndex = fin, chunkIndex = k\<rparr>]"
      using len fin by (simp add: chunks'_def)
    have a: "\<forall>c\<in>set chunks'. span_ok cs c \<and> startIndex c < s'"
      using "1.prems" s' fin len by (auto simp: c'eq span_ok_def)
    have b: "sorted_wrt (<) (map startIndex chunks')"
      using "1.prems" by (auto simp: c'eq sorted_wrt_append)
    have "0 \<le> s'" using s' "1.prems" by simp
    from "1.IH"[OF True fin_def piece_def chunks'_def refl s'_def "1.prems"(1) this a b]
    show ?thesis unfolding unf .
  qed
qed

lemma ceil_div_step: "0 < d \<Longrightarrow> ceil_div (a - d) d = ceil_div a d - 1"
proof -
  assume "0 < d"
  have "(- a + d) div d = (- a) div d + 1"
    using \<open>0 < d\<close> div_add_self2[of d "- a"] by simp
  moreover have "- (a - d) = - a + d" by simp
  ultimately show ?thesis by (simp only: ceil_div_def)
qed

lemma ceil_div_pos: "0 < d \<Longrightarrow> 0 < a \<Longrightarrow> 1 \<le> ceil_div a d"
proof -
  assume d: "0 < d" and a: "0 < a"
  have "(- a) div d < 0" using d a by (simp add: pos_imp_zdiv_neg_iff)
  then show ?thesis by (simp add: ceil_div_def)
qed

lemma chunkLoop_cover:
  "0 \<le> ov \<Longrightarrow> ov < cs \<Longrightarrow> 0 \<le> s \<Longrightarrow>
   (s < int (length t) \<Longrightarrow> budget_ok (int (length t)) cs ov M s i) \<Longrightarrow>
   \<exists>new. chunkLoop t cs ov M s k i chunks = chunks @ new \<and>
     (\<forall>c\<in>set new. chunk_good t cs c \<and> s \<le> startIndex c) \<and>
     (\<forall>p. s \<le> p \<and> p < int (length t) \<longrightarrow> covered new p) \<and>
     (int (length t) \<le> s \<longrightarrow> new = []) \<and>
     (s < int (length t) \<longrightarrow> new \<noteq> [] \<and> endIndex (last new) = int (length t))"
proof (induction t cs ov M s k i chunks rule: chunkLoop.induct)
  case (1 t cs ov M s k i chunks)
  let ?L = "int (length t)"
  show ?case
  proof (cases "s < ?L")
    case False
    then have "chunkLoop t cs ov M s k i chunks = chunks"
      by (subst chunkLoop.simps) auto
    then show ?thesis using False by auto
  next
    case sL: True
    from "1.prems"(4)[OF sL] have bud: "budget_ok ?L cs ov M s i" .
    have d: "0 < cs - ov" using "1.prems" by simp
    have cd1: "1 \<le> ceil_div (?L - s) (cs - ov)" using d sL by (simp add: ceil_div_pos)
    have iM: "i < M" using bud cd1 by (auto simp: budget_ok_def)
    have True: "s < ?L \<and> i < M" using sL iM by simp
    define fin where "fin = min (s + cs) ?L"
    define piece where "piece = slice t s fin"
    define ch where "ch = \<lparr>text' = piece, startIndex = s, endIndex = fin, chunkIndex = k\<rparr>"
    define chunks' where "chunks' = (if length piece > 0
                        then chunks @ [\<lparr>text' = piece, startIndex = s,
                                        endIndex = fin, chunkIndex = k\<rparr>]
                        else chunks)"
    define s' where "s' = (if fin - ov \<le> s then fin else fin - ov)"
    have fin: "s < fin" "fin \<le> ?L" "fin - s \<le> cs"
      using True "1.prems" by (auto simp: fin_def)
    have len: "length piece = nat (fin - s)"
      unfolding piece_def using fin "1.prems" by (simp add: length_slice)
    have s': "s < s'" "s' \<le> fin" using fin "1.prems" by (auto simp: s'_def)
    have unf: "chunkLoop t cs ov M s k i chunks = chunkLoop t cs ov M s' (k + 1) (i + 1) chunks'"
      using True by (subst chunkLoop.simps) (simp add: Let_def fin_def piece_def chunks'_def s'_def)
    have c'eq: "chunks' = chunks @ [ch]"
      using len fin by (simp add: chunks'_def ch_def)
    have chgood: "chunk_good t cs ch"
      by (simp add: chunk_good_def ch_def piece_def fin_def)
    have bud': "budget_ok ?L cs ov M s' (i + 1)" if s'L: "s' < ?L"
    proof (cases "s + cs < ?L")
      case True
      then have f: "fin = s + cs" by (simp add: fin_def)
      then have s'eq: "s' = s + (cs - ov)" using d by (simp add: s'_def)
      have "\<not> (?L - ov \<le> s)" using True "1.prems" by simp
      then have "i + ceil_div (?L - s) (cs - ov) + 1 \<le> M" using bud by (simp add: budget_ok_def)
      moreover have "ceil_div (?L - s') (cs - ov) = ceil_div (?L - s) (cs - ov) - 1"
        using ceil_div_step[OF d, of "?L - s"] by (simp add: s'eq algebra_simps)
      ultimately show ?thesis by (simp add: budget_ok_def)
    next
      case False
      then have f: "fin = ?L" by (simp add: fin_def)
      then have s'eq: "s' = ?L - ov" "\<not> (?L - ov \<le> s)" using s'L by (auto simp: s'_def split: if_splits)
      then have "i + ceil_div (?L - s) (cs - ov) + 1 \<le> M" using bud by (simp add: budget_ok_def)
      then have "i + 1 + 1 \<le> M" using cd1 by simp
      then show ?thesis using s'eq by (simp add: budget_ok_def)
    qed
    have "0 \<le> s'" using s' "1.prems" by simp
    from "1.IH"[OF True fin_def piece_def chunks'_def refl s'_def "1.prems"(1,2) this bud']
    obtain new' where new': "chunkLoop t cs ov M s' (k + 1) (i + 1) chunks' = chunks' @ new'"
      "\<forall>c\<in>set new'. chunk_good t cs c \<and> s' \<le> startIndex c"
      "\<forall>p. s' \<le> p \<and> p < ?L \<longrightarrow> covered new' p"
      "?L \<le> s' \<longrightarrow> new' = []"
      "s' < ?L \<longrightarrow> new' \<noteq> [] \<and> endIndex (last new') = ?L"
      by blast
    have r: "chunkLoop t cs ov M s k i chunks = chunks @ (ch # new')"
      using new'(1) by (simp add: unf c'eq)
    have g: "\<forall>c\<in>set (ch # new'). chunk_good t cs c \<and> s \<le> startIndex c"
      using new'(2) chgood s' by (auto simp: ch_def)
    have cov: "covered (ch # new') p" if "s \<le> p" "p < ?L" for p
    proof (cases "p < fin")
      case True
      then show ?thesis using that by (simp add: covered_def ch_def)
    next
      case False
      then have "s' \<le> p" using s' by simp
      then have "covered new' p" using new'(3) that by simp
      then show ?thesis by (auto simp: covered_def)
    qed
    have lastL: "endIndex (last (ch # new')) = ?L"
    proof (cases "s' < ?L")
      case True
      then show ?thesis using new'(5) by simp
    next
      case False
      then have "new' = []" using new'(4) by simp
      moreover have "fin = ?L" using False s' fin by simp
      ultimately show ?thesis by (simp add: ch_def)
    qed
    show ?thesis using r g cov lastL sL by (intro exI[of _ "ch # new'"]) simp
  qed
qed

lemma chunkText_valid:
  "txt \<noteq> [] \<Longrightarrow> 0 < chunkSize \<Longrightarrow> 0 \<le> overlap \<Longrightarrow> overlap < chunkSize \<Longrightarrow>
   chunkText txt chunkSize overlap =
     Inr (chunkLoop txt chunkSize overlap
            (ceil_div (int (length txt)) (chunkSize - overlap) + 100) 0 0 0 [])"
  by (simp add: chunkText_def Let_def)

text \<open>
  Claim C1. For every text and every valid parameter pair (\<open>chunkSize > 0\<close>,
  \<open>0 \<le> overlap < chunkSize\<close>) \<open>chunkText\<close> returns (the model is a total function
  and the result is a value, not a thrown error), every returned span is non-empty, no
  span is longer than \<open>chunkSize\<close>, and \<open>startIndex\<close> strictly increases along the
  returned chunks, so no span is emitted twice.
\<close>

theorem chunkText_total_spans:
  assumes "0 < chunkSize" and "0 \<le> overlap" and "overlap < chunkSize"
  shows "\<exists>chunks. chunkText txt chunkSize overlap = Inr chunks \<and>
           (\<forall>c\<in>set chunks. text' c \<noteq> [] \<and> startIndex c < endIndex c \<and>
                             endIndex c - startIndex c \<le> chunkSize) \<and>
           sorted_wrt (<) (map startIndex chunks)"
proof (cases "txt = []")
  case True
  then show ?thesis by (simp add: chunkText_def)
next
  case False
  let ?M = "ceil_div (int (length txt)) (chunkSize - overlap) + 100"
  have "(\<forall>c\<in>set (chunkLoop txt chunkSize overlap ?M 0 0 0 []). span_ok chunkSize c) \<and>
        sorted_wrt (<) (map startIndex (chunkLoop txt chunkSize overlap ?M 0 0 0 []))"
    using assms(1) by (intro chunkLoop_spans) simp_all
  then show ?thesis
    using chunkText_valid[OF False assms] by (simp add: span_ok_def)
qed

theorem chunkText_total_spans_witness:
  "(0::int) < 4 \<and> (0::int) \<le> 1 \<and> (1::int) < 4 \<and>
   (\<exists>chunks. chunkText ''abcdefghij'' 4 1 = Inr chunks \<and>
           (\<forall>c\<in>set chunks. text' c \<noteq> [] \<and> startIndex c < endIndex c \<and>
                             endIndex c - startIndex c \<le> 4) \<and>
           sorted_wrt (<) (map startIndex chunks))"
  using chunkText_total_spans[of 4 1 "''abcdefghij''"] by simp

text \<open>
  Claim C10. For every non-empty text and valid parameters, each returned chunk holds the
  substring of the text between its \<open>startIndex\<close> and its \<open>endIndex\<close>, where
  \<open>endIndex = min (startIndex + chunkSize) (length text)\<close>; the last chunk ends at the end
  of the text; and every position of the text lies in some returned chunk. In particular
  the safety limit on the number of iterations never truncates the output.
\<close>

theorem chunkText_slices_cover:
  assumes "txt \<noteq> []" and "0 < chunkSize" and "0 \<le> overlap" and "overlap < chunkSize"
  shows "\<exists>chunks. chunkText txt chunkSize overlap = Inr chunks \<and>
           (\<forall>c\<in>set chunks.
              text' c = take (nat (endIndex c - startIndex c)) (drop (nat (startIndex c)) txt) \<and>
              0 \<le> startIndex c \<and>
              endIndex c = min (startIndex c + chunkSize) (int (length txt))) \<and>
           chunks \<noteq> [] \<and> endIndex (last chunks) = int (length txt) \<and>
           (\<forall>p. 0 \<le> p \<and> p < int (length txt) \<longrightarrow>
                (\<exists>c\<in>set chunks. startIndex c \<le> p \<and> p < endIndex c))"
proof -
  let ?L = "int (length txt)"
  let ?M = "ceil_div ?L (chunkSize - overlap) + 100"
  let ?r = "chunkLoop txt chunkSize overlap ?M 0 0 0 []"
  have L: "0 < ?L" using assms(1) by simp
  have bud: "budget_ok ?L chunkSize overlap ?M 0 0" by (simp add: budget_ok_def)
  from chunkLoop_cover[OF assms(3,4) order_refl bud, of 0 "[]"]
  obtain new where new: "?r = [] @ new"
     "\<forall>c\<in>set new. chunk_good txt chunkSize c \<and> 0 \<le> startIndex c"
     "\<forall>p. 0 \<le> p \<and> p < ?L \<longrightarrow> covered new p"
     "0 < ?L \<longrightarrow> new \<noteq> [] \<and> endIndex (last new) = ?L"
    by blast
  have sp: "\<forall>c\<in>set ?r. span_ok chunkSize c"
    using chunkLoop_spans[of chunkSize 0 "[]" "txt" overlap "?M" 0 0] assms(2) by simp
  have each: "text' c = take (nat (endIndex c - startIndex c)) (drop (nat (startIndex c)) txt) \<and>
              0 \<le> startIndex c \<and>
              endIndex c = min (startIndex c + chunkSize) ?L" if c: "c \<in> set ?r" for c
  proof -
    have g: "chunk_good txt chunkSize c" "0 \<le> startIndex c" using new(1,2) c by auto
    have "startIndex c < endIndex c" using sp c by (simp add: span_ok_def)
    moreover have "endIndex c \<le> ?L" using g by (simp add: chunk_good_def)
    ultimately have "slice txt (startIndex c) (endIndex c) =
        take (nat (endIndex c - startIndex c)) (drop (nat (startIndex c)) txt)"
      using g(2) by (intro slice_inrange) simp_all
    then show ?thesis using g by (simp add: chunk_good_def)
  qed
  have cov: "\<exists>c\<in>set ?r. startIndex c \<le> p \<and> p < endIndex c" if "0 \<le> p" "p < ?L" for p
    using new(1,3) that by (simp add: covered_def)
  have "?r \<noteq> []" "endIndex (last ?r) = ?L" using new(1,4) L by simp_all
  then show ?thesis
    using chunkText_valid[OF assms] each cov by (intro exI[of _ ?r]) blast
qed

theorem chunkText_slices_cover_witness:
  "''abcdefghij'' \<noteq> [] \<and> (0::int) < 4 \<and> (0::int) \<le> 1 \<and> (1::int) < 4 \<and>
   (\<exists>chunks. chunkText ''abcdefghij'' 4 1 = Inr chunks \<and>
           (\<forall>c\<in>set chunks.
              text' c = take (nat (endIndex c - startIndex c)) (drop (nat (startIndex c)) ''abcdefghij'') \<and>
              0 \<le> startIndex c \<and>
              endIndex c = min (startIndex c + 4) (int (length ''abcdefghij''))) \<and>
           chunks \<noteq> [] \<and> endIndex (last chunks) = int (length ''abcdefghij'') \<and>
           (\<forall>p. 0 \<le> p \<and> p < int (length ''abcdefghij'') \<longrightarrow>
                (\<exists>c\<in>set chunks. startIndex c \<le> p \<and> p < endIndex c)))"
  using chunkText_slices_cover[of "''abcdefghij''" 4 1] by simp

text \<open>The run of the loop on a text of 2500 code units with the default parameters: the
  third window is clipped at 2500, so the fourth starts at \<open>2500 - 200 = 2300\<close>.\<close>

lemma chunkText_2500:
  assumes "length txt = 2500"
  shows "chunkText txt 1000 200 = Inr
    [\<lparr>text' = slice txt 0 1000, startIndex = 0, endIndex = 1000, chunkIndex = 0\<rparr>,
     \<lparr>text' = slice txt 800 1800, startIndex = 800, endIndex = 1800, chunkIndex = 1\<rparr>,
     \<lparr>text' = slice txt 1600 2500, startIndex = 1600, endIndex = 2500, chunkIndex = 2\<rparr>,
     \<lparr>text' = slice txt 2300 2500, startIndex = 2300, endIndex = 2500, chunkIndex = 3\<rparr>]"
proof -
  have ne: "txt \<noteq> []" using assms by auto
  have M: "ceil_div (int (length txt)) (1000 - 200) + 100 = 104"
    using assms by (simp add: ceil_div_def)
  have "length (slice txt 0 1000) = 1000" "length (slice txt 800 1800) = 1000"
      "length (slice txt 1600 2500) = 900" "length (slice txt 2300 2500) = 200"
    using assms by (simp_all add: length_slice)
  then have l: "slice txt 0 1000 \<noteq> []" "slice txt 800 1800 \<noteq> []"
      "slice txt 1600 2500 \<noteq> []" "slice txt 2300 2500 \<noteq> []"
    by auto
  show ?thesis
    unfolding chunkText_valid[OF ne, of 1000 200, simplified] M[simplified]
    apply (subst chunkLoop.simps, simp add: assms l Let_def)
    apply (subst chunkLoop.simps, simp add: assms l Let_def)
    apply (subst chunkLoop.simps, simp add: assms l Let_def)
    apply (subst chunkLoop.simps, simp add: assms l Let_def)
    apply (subst chunkLoop.simps, simp add: assms l Let_def)
    done
qed

text \<open>
  Claim C2 (as the code behaves). Chunking a text of exactly 2500 code units with
  \<open>chunkSize = 1000\<close> and \<open>overlap = 200\<close> yields exactly 4 chunks whose
  \<open>startIndex\<close> values are, in order, 0, 800, 1600, 2300.
\<close>

theorem chunkText_2500_starts:
  assumes "length txt = 2500"
  shows "\<exists>chunks. chunkText txt 1000 200 = Inr chunks \<and> length chunks = 4 \<and>
           map startIndex chunks = [0, 800, 1600, 2300]"
  using chunkText_2500[OF assms] by simp

theorem chunkText_2500_starts_witness:
  "length (replicate 2500 (CHR ''a'')) = 2500 \<and>
   (\<exists>chunks. chunkText (replicate 2500 (CHR ''a'')) 1000 200 = Inr chunks \<and> length chunks = 4 \<and>
           map startIndex chunks = [0, 800, 1600, 2300])"
  using chunkText_2500_starts[of "replicate 2500 (CHR ''a'')"] by simp

text \<open>The sequence 0, 800, 1600, 2400 of the scenario is not what the chunker returns on
  a text of 2500 code units.\<close>

theorem chunkText_2500_not_2400:
  "\<not> (\<exists>chunks. chunkText (replicate 2500 (CHR ''a'')) 1000 200 = Inr chunks \<and>
           map startIndex chunks = [0, 800, 1600, 2400])"
  using chunkText_2500[of "replicate 2500 (CHR ''a'')"] by simp

section \<open>Properties of the vector store: search\<close>

lemma vector_rowToChunk: "vector (rowToChunk r) = embedding r"
  by (simp add: rowToChunk_def)

lemma scoreRows_Inr:
  "scoreRows sim qe rows = Inr scored \<Longrightarrow>
   map fst scored = map rowToChunk rows \<and>
   (\<forall>item\<in>set scored. sim qe (vector (fst item)) = Inr (snd item))"
proof (induction rows arbitrary: scored)
  case Nil
  then show ?case by simp
next
  case (Cons r rows)
  from Cons.prems obtain s where s: "sim qe (embedding r) = Inr s"
    by (cases "sim qe (embedding r)") simp_all
  from Cons.prems s obtain rest where rest: "scoreRows sim qe rows = Inr rest"
    by (cases "scoreRows sim qe rows") simp_all
  from Cons.prems s rest have sc: "scored = (rowToChunk r, s) # rest" by simp
  show ?case using Cons.IH[OF rest] s by (simp add: sc vector_rowToChunk)
qed

lemma slice_from_0: "0 \<le> k \<Longrightarrow> slice xs 0 k = take (nat k) xs"
  by (simp add: slice_def Let_def min_def)

lemma filter_take_prefix: "prefix (filter P (take n xs)) (filter P xs)"
proof -
  have "filter P xs = filter P (take n xs) @ filter P (drop n xs)"
    by (metis append_take_drop_id filter_append)
  then show ?thesis by (simp add: prefix_def)
qed

lemma searchSimilarChunks_unfold:
  "generateEmbedding query = Inr qe \<Longrightarrow>
   searchSimilarChunks generateEmbedding sim db query limit documentIds =
     (if candidates db documentIds = [] then Inr []
      else case scoreRows sim qe (candidates db documentIds) of
             Inl e \<Rightarrow> Inl e
           | Inr scoredChunks \<Rightarrow>
               Inr (map fst (slice (sort_key (\<lambda>item. - snd item) scoredChunks) 0 limit)))"
  by (cases documentIds) (simp_all add: searchSimilarChunks_def candidates_def)

lemma score_of_item:
  "sim qe (vector (fst item)) = Inr (snd item) \<Longrightarrow> score_of sim qe (fst item) = snd item"
  by (simp add: score_of_def)

lemma ranked_props:
  fixes scored :: "(('c, 'v) DocumentChunk \<times> real) list" and n :: nat
  assumes sc: "\<forall>item\<in>set scored. sim qe (vector (fst item)) = Inr (snd item)"
  defines "ranked \<equiv> map fst (take n (sort_key (\<lambda>item. - snd item) scored))"
  shows "length ranked = min n (length scored)"
    and "\<forall>i j. i < j \<and> j < length ranked \<longrightarrow>
           score_of sim qe (ranked ! j) \<le> score_of sim qe (ranked ! i)"
    and "\<forall>s. prefix (filter (\<lambda>c. score_of sim qe c = s) ranked)
                      (filter (\<lambda>c. score_of sim qe c = s) (map fst scored))"
    and "set ranked \<subseteq> fst ` set scored"
    and "\<forall>c\<in>set ranked. sim qe (vector c) = Inr (score_of sim qe c)"
proof -
  let ?S = "sort_key (\<lambda>item. - snd item) scored"
  let ?T = "take n ?S"
  have setT: "set ?T \<subseteq> set scored" using set_take_subset[of n ?S] by simp
  have itemT: "score_of sim qe (fst item) = snd item" if "item \<in> set ?T" for item
    using sc setT that by (auto intro: score_of_item)
  have item: "score_of sim qe (fst item) = snd item" if "item \<in> set scored" for item
    using sc that by (auto intro: score_of_item)
  show "length ranked = min n (length scored)" by (simp add: ranked_def min.commute)
  show "set ranked \<subseteq> fst ` set scored" using setT by (auto simp: ranked_def)
  show "\<forall>c\<in>set ranked. sim qe (vector c) = Inr (score_of sim qe c)"
  proof
    fix c assume "c \<in> set ranked"
    then obtain item where it: "item \<in> set ?T" "c = fst item" by (auto simp: ranked_def)
    then show "sim qe (vector c) = Inr (score_of sim qe c)" using sc setT itemT by auto
  qed
  have sortedT: "sorted (map (\<lambda>item. - snd item) ?T)"
    using sorted_sort_key[of "\<lambda>item. - snd item" scored]
    by (simp add: take_map[symmetric])
  show "\<forall>i j. i < j \<and> j < length ranked \<longrightarrow>
           score_of sim qe (ranked ! j) \<le> score_of sim qe (ranked ! i)"
  proof (intro allI impI)
    fix i j assume ij: "i < j \<and> j < length ranked"
    then have j: "j < length ?T" and i: "i < length ?T" by (simp_all add: ranked_def)
    have "map (\<lambda>item. - snd item) ?T ! i \<le> map (\<lambda>item. - snd item) ?T ! j"
      using sortedT ij j by (intro sorted_nth_mono) simp_all
    then have "snd (?T ! j) \<le> snd (?T ! i)" using i j by simp
    moreover have "score_of sim qe (fst (?T ! j)) = snd (?T ! j)"
      by (rule itemT) (use j in \<open>rule nth_mem\<close>)
    then have "score_of sim qe (ranked ! j) = snd (?T ! j)"
      using j by (simp only: ranked_def nth_map)
    moreover have "score_of sim qe (fst (?T ! i)) = snd (?T ! i)"
      by (rule itemT) (use i in \<open>rule nth_mem\<close>)
    then have "score_of sim qe (ranked ! i) = snd (?T ! i)"
      using i by (simp only: ranked_def nth_map)
    ultimately show "score_of sim qe (ranked ! j) \<le> score_of sim qe (ranked ! i)" by simp
  qed
  show "\<forall>s. prefix (filter (\<lambda>c. score_of sim qe c = s) ranked)
                      (filter (\<lambda>c. score_of sim qe c = s) (map fst scored))"
  proof
    fix s
    let ?Q = "\<lambda>item::(('c, 'v) DocumentChunk \<times> real). snd item = s"
    have a: "filter (\<lambda>c. score_of sim qe c = s) ranked = map fst (filter ?Q ?T)"
      unfolding ranked_def filter_map
      by (intro arg_cong[where f="map fst"] filter_cong) (auto simp: itemT)
    have b: "filter (\<lambda>c. score_of sim qe c = s) (map fst scored) = map fst (filter ?Q scored)"
      unfolding filter_map
      by (intro arg_cong[where f="map fst"] filter_cong) (auto simp: item)
    have "filter (\<lambda>item. - snd item = - s) ?S = filter (\<lambda>item. - snd item = - s) scored"
      by (rule sort_key_stable)
    then have c: "filter ?Q ?S = filter ?Q scored" by simp
    have "prefix (filter ?Q ?T) (filter ?Q ?S)" by (rule filter_take_prefix)
    then have "prefix (map fst (filter ?Q ?T)) (map fst (filter ?Q scored))"
      unfolding c by (rule map_mono_prefix)
    then show "prefix (filter (\<lambda>c. score_of sim qe c = s) ranked)
                      (filter (\<lambda>c. score_of sim qe c = s) (map fst scored))"
      by (simp only: a b)
  qed
qed

lemma ranked_top:
  fixes scored :: "(('c, 'v) DocumentChunk \<times> real) list" and n :: nat
  assumes sc: "\<forall>item\<in>set scored. sim qe (vector (fst item)) = Inr (snd item)"
  defines "ranked \<equiv> map fst (take n (sort_key (\<lambda>item. - snd item) scored))"
  shows "\<forall>c\<in>set (map fst scored). c \<notin> set ranked \<longrightarrow>
           (\<forall>c'\<in>set ranked. score_of sim qe c \<le> score_of sim qe c')"
proof (intro ballI impI)
  let ?S = "sort_key (\<lambda>item. - snd item) scored"
  fix c c'
  assume c: "c \<in> set (map fst scored)" and out: "c \<notin> set ranked" and c': "c' \<in> set ranked"
  from c obtain item where item: "item \<in> set scored" "c = fst item" by auto
  from c' obtain item' where item': "item' \<in> set (take n ?S)" "c' = fst item'"
    by (auto simp: ranked_def)
  have "item \<notin> set (take n ?S)" using out item(2) by (auto simp: ranked_def)
  moreover have "set ?S = set (take n ?S) \<union> set (drop n ?S)"
    by (metis append_take_drop_id set_append)
  moreover have "item \<in> set ?S" using item(1) by simp
  ultimately have d: "item \<in> set (drop n ?S)" by blast
  have "sorted (map (\<lambda>item. - snd item) ?S)"
    by (rule sorted_sort_key)
  then have "sorted (map (\<lambda>item. - snd item) (take n ?S) @ map (\<lambda>item. - snd item) (drop n ?S))"
    by (simp only: map_append[symmetric] append_take_drop_id)
  then have "- snd item' \<le> - snd item"
    using item'(1) d unfolding sorted_append by auto
  moreover have "item' \<in> set scored" using item'(1) set_take_subset[of n ?S] by auto
  ultimately show "score_of sim qe c \<le> score_of sim qe c'"
    using sc item item'(2) by (simp add: score_of_item)
qed

text \<open>
  Claim C3 (as the code behaves). For every query, every limit \<open>k \<ge> 0\<close> and every
  table, a search that returns gives \<open>min k n\<close> chunks for \<open>n\<close> candidate rows, so at
  most \<open>k\<close>; they are in order of non-increasing score; chunks of equal score keep the
  order in which their rows were loaded, the earliest first; no candidate left out
  scores higher than a chunk returned; every score is what \<open>cosineSimilarity\<close>
  returned for the query embedding and the chunk's vector; and when a filter is present
  and not empty, every returned chunk belongs to a listed document. An absent or an
  empty filter leaves every row a candidate, loaded in insertion order; under a
  non-empty filter the rows are loaded by ascending document id, in insertion order
  within a document.
\<close>

theorem searchSimilarChunks_ranked:
  assumes gen: "generateEmbedding query = Inr qe"
    and res: "searchSimilarChunks generateEmbedding sim db query limit documentIds = Inr result"
    and k: "0 \<le> limit"
  shows "length result = min (nat limit) (length (candidates db documentIds)) \<and>
         length result \<le> nat limit \<and>
         (\<forall>i j. i < j \<and> j < length result \<longrightarrow>
            score_of sim qe (result ! j) \<le> score_of sim qe (result ! i)) \<and>
         (\<forall>s. prefix (filter (\<lambda>c. score_of sim qe c = s) result)
                      (filter (\<lambda>c. score_of sim qe c = s)
                         (map rowToChunk (candidates db documentIds)))) \<and>
         (\<forall>c\<in>set result. sim qe (vector c) = Inr (score_of sim qe c)) \<and>
         set result \<subseteq> rowToChunk ` set (candidates db documentIds) \<and>
         (\<forall>c\<in>set (map rowToChunk (candidates db documentIds)). c \<notin> set result \<longrightarrow>
            (\<forall>c'\<in>set result. score_of sim qe c \<le> score_of sim qe c')) \<and>
         (\<forall>ids. documentIds = Some ids \<and> ids \<noteq> [] \<longrightarrow>
            (\<forall>c\<in>set result. documentId c \<in> set ids))"
proof -
  let ?rows = "candidates db documentIds"
  have "\<exists>scored. map fst scored = map rowToChunk ?rows \<and>
       (\<forall>item\<in>set scored. sim qe (vector (fst item)) = Inr (snd item)) \<and>
       result = map fst (take (nat limit) (sort_key (\<lambda>item. - snd item) scored))"
  proof (cases "?rows = []")
    case True
    then have "result = []" using res by (simp add: searchSimilarChunks_unfold[where generateEmbedding=generateEmbedding and query=query, OF gen])
    then show ?thesis using True by (intro exI[of _ "[]"]) simp
  next
    case False
    then obtain scored where sc: "scoreRows sim qe ?rows = Inr scored"
      and r: "result = map fst (slice (sort_key (\<lambda>item. - snd item) scored) 0 limit)"
      using res by (cases "scoreRows sim qe ?rows") (simp_all add: searchSimilarChunks_unfold[where generateEmbedding=generateEmbedding and query=query, OF gen])
    show ?thesis using scoreRows_Inr[OF sc] r k by (intro exI[of _ scored]) (simp add: slice_from_0)
  qed
  then obtain scored where m: "map fst scored = map rowToChunk ?rows"
    and sc: "\<forall>item\<in>set scored. sim qe (vector (fst item)) = Inr (snd item)"
    and r: "result = map fst (take (nat limit) (sort_key (\<lambda>item. - snd item) scored))"
    by blast
  note P = ranked_props[where sim=sim and qe=qe and scored=scored and n="nat limit", OF sc, folded r]
  have len: "length scored = length ?rows" using arg_cong[OF m, of length] by simp
  have sub: "set result \<subseteq> rowToChunk ` set ?rows"
    using P(4) arg_cong[OF m, of set] by simp
  have flt: "\<forall>c\<in>set result. documentId c \<in> set ids" if "documentIds = Some ids" "ids \<noteq> []" for ids
    using sub that by (auto simp: candidates_def select_by_document_ids_def rowToChunk_def)
  note Q = ranked_top[where sim=sim and qe=qe and scored=scored and n="nat limit", OF sc, folded r]
  have top: "\<forall>c\<in>set (map rowToChunk ?rows). c \<notin> set result \<longrightarrow>
            (\<forall>c'\<in>set result. score_of sim qe c \<le> score_of sim qe c')"
    using Q by (simp only: m)
  have "length result = min (nat limit) (length ?rows)" using P(1) by (simp add: len)
  moreover have "length result \<le> nat limit" using P(1) by simp
  moreover have "\<forall>s. prefix (filter (\<lambda>c. score_of sim qe c = s) result)
                      (filter (\<lambda>c. score_of sim qe c = s) (map rowToChunk ?rows))"
    unfolding m[symmetric] by (rule P(3))
  ultimately show ?thesis using P(2,5) sub top flt by blast
qed

lemma demo_search_ranked:
  "searchSimilarChunks demo_embed demo_sim demo_db ''q'' 2 (Some [''a'', ''b'']) =
     Inr [rowToChunk (demo_row ''b'' 0 2), rowToChunk (demo_row ''a'' 0 1)]"
  by (simp add: searchSimilarChunks_def select_by_document_ids_def demo_embed_def demo_sim_def
      demo_db_def demo_row_def slice_def rowToChunk_def)

theorem searchSimilarChunks_ranked_witness:
  "demo_embed ''q'' = Inr 0 \<and>
   searchSimilarChunks demo_embed demo_sim demo_db ''q'' 2 (Some [''a'', ''b'']) =
     Inr [rowToChunk (demo_row ''b'' 0 2), rowToChunk (demo_row ''a'' 0 1)] \<and>
   (0::int) \<le> 2 \<and>
   length [rowToChunk (demo_row ''b'' 0 2), rowToChunk (demo_row ''a'' 0 1)] \<le> nat 2 \<and>
   score_of demo_sim 0 (rowToChunk (demo_row ''a'' 0 1)) \<le> score_of demo_sim 0 (rowToChunk (demo_row ''b'' 0 2))"
proof -
  have g: "demo_embed ''q'' = Inr 0" by (simp add: demo_embed_def)
  have k: "(0::int) \<le> 2" by simp
  from searchSimilarChunks_ranked[OF g demo_search_ranked k]
  have "length [rowToChunk (demo_row ''b'' 0 2), rowToChunk (demo_row ''a'' 0 1)] \<le> nat 2"
    and "\<forall>i j. i < j \<and> j < length [rowToChunk (demo_row ''b'' 0 2), rowToChunk (demo_row ''a'' 0 1)] \<longrightarrow>
            score_of demo_sim 0 ([rowToChunk (demo_row ''b'' 0 2), rowToChunk (demo_row ''a'' 0 1)] ! j)
            \<le> score_of demo_sim 0 ([rowToChunk (demo_row ''b'' 0 2), rowToChunk (demo_row ''a'' 0 1)] ! i)"
    by blast+
  from this(1) this(2)[rule_format, of 0 1] show ?thesis using g demo_search_ranked by simp
qed

text \<open>The claim as stated fails three times: a filter that is supplied but empty
  restricts nothing; a negative limit makes \<^verbatim>\<open>slice(0, limit)\<close> drop from the end of
  the ranking, so more than \<open>limit\<close> chunks come back; and under a non-empty filter two
  chunks of equal score come back in the order of their document ids, not in the order
  of insertion.\<close>

theorem searchSimilarChunks_filter_limit_counterexample:
  "(\<exists>result. searchSimilarChunks demo_embed demo_sim demo_db ''q'' 5 (Some []) = Inr result \<and>
      (\<exists>c\<in>set result. documentId c \<notin> set [])) \<and>
   (\<exists>result. searchSimilarChunks demo_embed demo_sim demo_db ''q'' (- 1) None = Inr result \<and>
      \<not> int (length result) \<le> - 1) \<and>
   (\<exists>result. searchSimilarChunks demo_embed demo_sim demo_ties_db ''q'' 5 (Some [''a'', ''b'']) =
        Inr result \<and>
      score_of demo_sim 0 (rowToChunk (demo_row ''b'' 0 1)) =
        score_of demo_sim 0 (rowToChunk (demo_row ''a'' 0 1)) \<and>
      result = [rowToChunk (demo_row ''a'' 0 1), rowToChunk (demo_row ''b'' 0 1)] \<and>
      result \<noteq> map rowToChunk demo_ties_db)"
proof -
  have c: "searchSimilarChunks demo_embed demo_sim demo_ties_db ''q'' 5 (Some [''a'', ''b'']) =
     Inr [rowToChunk (demo_row ''a'' 0 1), rowToChunk (demo_row ''b'' 0 1)]"
    by (simp add: searchSimilarChunks_def select_by_document_ids_def demo_embed_def demo_sim_def
      demo_ties_db_def demo_row_def slice_def rowToChunk_def)
  have d: "score_of demo_sim 0 (rowToChunk (demo_row ''b'' 0 1)) =
        score_of demo_sim 0 (rowToChunk (demo_row ''a'' 0 1))"
    by (simp add: score_of_def demo_sim_def rowToChunk_def demo_row_def)
  have e: "[rowToChunk (demo_row ''a'' 0 1), rowToChunk (demo_row ''b'' 0 1)] \<noteq>
        map rowToChunk demo_ties_db"
    by (simp add: demo_ties_db_def rowToChunk_def demo_row_def)
  have a: "searchSimilarChunks demo_embed demo_sim demo_db ''q'' 5 (Some []) =
     Inr [rowToChunk (demo_row ''b'' 0 2), rowToChunk (demo_row ''a'' 0 1),
          rowToChunk (demo_row ''a'' 1 1)]"
    by (simp add: searchSimilarChunks_def demo_embed_def demo_sim_def demo_db_def demo_row_def
      slice_def rowToChunk_def)
  have b: "searchSimilarChunks demo_embed demo_sim demo_db ''q'' (- 1) None =
     Inr [rowToChunk (demo_row ''b'' 0 2), rowToChunk (demo_row ''a'' 0 1)]"
    by (simp add: searchSimilarChunks_def demo_embed_def demo_sim_def demo_db_def demo_row_def
      slice_def rowToChunk_def)
  show ?thesis unfolding a b c using d e by auto
qed

section \<open>Properties of the vector store: indexing\<close>

declare show_nat.simps [simp del]

lemma show_nat_digits: "c \<in> set (show_nat n) \<Longrightarrow> 48 \<le> (of_char c :: nat) \<and> (of_char c :: nat) \<le> 57"
proof (induction n arbitrary: c rule: show_nat.induct)
  case (1 n)
  show ?case
  proof (cases "n < 10")
    case True
    then have "show_nat n = [char_of (48 + n)]" by (subst show_nat.simps) simp
    then show ?thesis using "1.prems" True by auto
  next
    case False
    then have e: "show_nat n = show_nat (n div 10) @ [char_of (48 + n mod 10)]"
      by (subst show_nat.simps) simp
    have "n mod 10 < 10" by simp
    then have "48 \<le> (of_char (char_of (48 + n mod 10 :: nat)) :: nat) \<and>
               (of_char (char_of (48 + n mod 10 :: nat)) :: nat) \<le> 57"
      by auto
    then show ?thesis using "1.prems" "1.IH"[OF False] e by auto
  qed
qed

lemma show_nat_nonempty: "show_nat n \<noteq> []"
  by (subst show_nat.simps) simp

lemma show_nat_inj: "show_nat n = show_nat m \<Longrightarrow> n = m"
proof (induction n arbitrary: m rule: show_nat.induct)
  case (1 n)
  show ?case
  proof (cases "n < 10")
    case n: True
    then have en: "show_nat n = [char_of (48 + n)]" by (subst show_nat.simps) simp
    show ?thesis
    proof (cases "m < 10")
      case True
      then have "show_nat m = [char_of (48 + m)]" by (subst show_nat.simps) simp
      then have "char_of (48 + n) = (char_of (48 + m) :: char)" using en "1.prems" by simp
      then have "(of_char (char_of (48 + n) :: char) :: nat) = of_char (char_of (48 + m) :: char)"
        by simp
      then show ?thesis using n True by simp
    next
      case False
      then have "show_nat m = show_nat (m div 10) @ [char_of (48 + m mod 10)]"
        by (subst show_nat.simps) simp
      then have "length (show_nat m) \<ge> 2" using show_nat_nonempty[of "m div 10"]
        by (cases "show_nat (m div 10)") simp_all
      then show ?thesis using en "1.prems" by simp
    qed
  next
    case n: False
    then have en: "show_nat n = show_nat (n div 10) @ [char_of (48 + n mod 10)]"
      by (subst show_nat.simps) simp
    show ?thesis
    proof (cases "m < 10")
      case True
      then have "show_nat m = [char_of (48 + m)]" by (subst show_nat.simps) simp
      moreover have "length (show_nat n) \<ge> 2" using en show_nat_nonempty[of "n div 10"]
        by (cases "show_nat (n div 10)") simp_all
      ultimately show ?thesis using "1.prems" by simp
    next
      case False
      then have "show_nat m = show_nat (m div 10) @ [char_of (48 + m mod 10)]"
        by (subst show_nat.simps) simp
      then have a: "show_nat (n div 10) = show_nat (m div 10)"
        and b: "char_of (48 + n mod 10) = (char_of (48 + m mod 10) :: char)"
        using en "1.prems" by simp_all
      from b have "(of_char (char_of (48 + n mod 10) :: char) :: nat) =
                   of_char (char_of (48 + m mod 10) :: char)" by simp
      moreover have "n mod 10 < 10" "m mod 10 < 10" by simp_all
      ultimately have "n mod 10 = m mod 10" by simp
      moreover have "n div 10 = m div 10" using "1.IH"[OF n a] .
      ultimately show ?thesis by (metis div_mult_mod_eq)
    qed
  qed
qed

lemma show_int_chars: "c \<in> set (show_int i) \<Longrightarrow> c \<noteq> CHR ''_''"
  using show_nat_digits[of c] by (auto simp: show_int_def split: if_splits)

lemma show_int_inj: "show_int i = show_int j \<Longrightarrow> i = j"
proof -
  assume e: "show_int i = show_int j"
  have nd: "hd (show_nat n) \<noteq> CHR ''-''" for n
    using show_nat_digits[of "hd (show_nat n)" n] show_nat_nonempty[of n] by auto
  show ?thesis
  proof (cases "i < 0")
    case i: True
    show ?thesis
    proof (cases "j < 0")
      case True
      then have "nat (- i) = nat (- j)" using e i by (auto simp: show_int_def dest: show_nat_inj)
      then show ?thesis using i True by simp
    next
      case False
      then have "CHR ''-'' # show_nat (nat (- i)) = show_nat (nat j)" using e i by (simp add: show_int_def)
      then have "hd (show_nat (nat j)) = CHR ''-''" by (metis list.sel(1))
      then show ?thesis using nd by simp
    qed
  next
    case i: False
    show ?thesis
    proof (cases "j < 0")
      case True
      then have "show_nat (nat i) = CHR ''-'' # show_nat (nat (- j))" using e i by (simp add: show_int_def)
      then have "hd (show_nat (nat i)) = CHR ''-''" by simp
      then show ?thesis using nd by simp
    next
      case False
      then have "nat i = nat j" using e i by (auto simp: show_int_def dest: show_nat_inj)
      then show ?thesis using i False by simp
    qed
  qed
qed

lemma split_at_last_sep:
  assumes "xs @ c # ys = xs' @ c # ys'" and "c \<notin> set ys" and "c \<notin> set ys'"
  shows "xs = xs' \<and> ys = ys'"
proof -
  have tw: "takeWhile (\<lambda>x. x \<noteq> c) (rev (as @ c # bs)) = rev bs" if "c \<notin> set bs" for as bs
  proof -
    have "\<And>x. x \<in> set (rev bs) \<Longrightarrow> x \<noteq> c" using that by auto
    from takeWhile_append2[of "rev bs" "\<lambda>x. x \<noteq> c" "c # rev as", OF this]
    show ?thesis by simp
  qed
  have "takeWhile (\<lambda>x. x \<noteq> c) (rev (xs @ c # ys)) = rev ys"
    using assms(2) by (rule tw)
  moreover have "takeWhile (\<lambda>x. x \<noteq> c) (rev (xs' @ c # ys')) = rev ys'"
    using assms(3) by (rule tw)
  ultimately have "ys = ys'" using assms(1) by (metis rev_is_rev_conv)
  then show ?thesis using assms(1) by simp
qed

lemma chunk_id_inj: "chunk_id d i = chunk_id d' i' \<Longrightarrow> d = d' \<and> i = i'"
proof -
  assume "chunk_id d i = chunk_id d' i'"
  then have "d @ CHR ''_'' # show_int i = d' @ CHR ''_'' # show_int i'" by (simp add: chunk_id_def)
  then have "d = d' \<and> show_int i = show_int i'"
    by (rule split_at_last_sep) (use show_int_chars in blast)+
  then show ?thesis by (auto dest: show_int_inj)
qed

declare indexBatches.simps [simp del]

lemma chunkLoop_indices:
  "0 < cs \<Longrightarrow> 0 \<le> s \<Longrightarrow> k = int (length chunks) \<Longrightarrow>
   map chunkIndex chunks = map int [0..<length chunks] \<Longrightarrow>
   map chunkIndex (chunkLoop t cs ov M s k i chunks) =
     map int [0..<length (chunkLoop t cs ov M s k i chunks)]"
proof (induction t cs ov M s k i chunks rule: chunkLoop.induct)
  case (1 t cs ov M s k i chunks)
  show ?case
  proof (cases "s < int (length t) \<and> i < M")
    case False
    then have "chunkLoop t cs ov M s k i chunks = chunks"
      by (subst chunkLoop.simps) auto
    then show ?thesis using "1.prems" by simp
  next
    case True
    define fin where "fin = min (s + cs) (int (length t))"
    define piece where "piece = slice t s fin"
    define chunks' where "chunks' = (if length piece > 0
                        then chunks @ [\<lparr>text' = piece, startIndex = s,
                                        endIndex = fin, chunkIndex = k\<rparr>]
                        else chunks)"
    define s' where "s' = (if fin - ov \<le> s then fin else fin - ov)"
    have fin: "s < fin" "fin \<le> int (length t)"
      using True "1.prems" by (auto simp: fin_def)
    have len: "length piece = nat (fin - s)"
      unfolding piece_def using fin "1.prems" by (simp add: length_slice)
    have s': "0 \<le> s'" using fin "1.prems" by (simp add: s'_def)
    have unf: "chunkLoop t cs ov M s k i chunks = chunkLoop t cs ov M s' (k + 1) (i + 1) chunks'"
      using True by (subst chunkLoop.simps) (simp add: Let_def fin_def piece_def chunks'_def s'_def)
    have c'eq: "chunks' = chunks @ [\<lparr>text' = piece, startIndex = s, endIndex = fin, chunkIndex = k\<rparr>]"
      using len fin by (simp add: chunks'_def)
    have a: "k + 1 = int (length chunks')" using "1.prems" by (simp add: c'eq)
    have b: "map chunkIndex chunks' = map int [0..<length chunks']"
      using "1.prems" by (simp add: c'eq)
    from "1.IH"[OF True fin_def piece_def chunks'_def refl s'_def "1.prems"(1) s' a b]
    show ?thesis unfolding unf .
  qed
qed

lemma chunkText_indices:
  "chunkText txt 1000 200 = Inr chunks \<Longrightarrow> map chunkIndex chunks = map int [0..<length chunks]"
proof (cases "txt = []")
  case True
  assume "chunkText txt 1000 200 = Inr chunks"
  then show ?thesis using True by (simp add: chunkText_def)
next
  case False
  assume "chunkText txt 1000 200 = Inr chunks"
  then have "chunks = chunkLoop txt 1000 200 (ceil_div (int (length txt)) (1000 - 200) + 100) 0 0 0 []"
    using chunkText_valid[OF False, of 1000 200] by simp
  then show ?thesis
    using chunkLoop_indices[of 1000 0 0 "[]" "txt" 200 "ceil_div (int (length txt)) (1000 - 200) + 100" 0]
    by simp
qed

lemma chunkText_default_returns: "\<exists>chunks. chunkText txt 1000 200 = Inr chunks"
  by (simp add: chunkText_def Let_def)

lemma insert_batch_fresh:
  "distinct (map row_id (List.map_filter (\<lambda>x. x) batchData)) \<Longrightarrow>
   row_id ` set (List.map_filter (\<lambda>x. x) batchData) \<inter> row_id ` set db = {} \<Longrightarrow>
   insert_batch db batchData = Inr (db @ List.map_filter (\<lambda>x. x) batchData)"
proof (induction db batchData rule: insert_batch.induct)
  case (1 db)
  then show ?case by simp
next
  case (2 db batchData)
  then show ?case by simp
next
  case (3 db r batchData)
  have fresh: "row_id r \<notin> row_id ` set db" using "3.prems"(2) by auto
  then have ins: "insert_row db r = Inr (db @ [r])" by (simp add: insert_row_def)
  have d: "distinct (map row_id (List.map_filter (\<lambda>x. x) batchData))"
    using "3.prems"(1) by simp
  have "row_id r \<notin> row_id ` set (List.map_filter (\<lambda>x. x) batchData)"
    using "3.prems"(1) by auto
  then have e: "row_id ` set (List.map_filter (\<lambda>x. x) batchData) \<inter> row_id ` set (db @ [r]) = {}"
    using "3.prems"(2) by auto
  show ?case using "3.IH"[OF ins d e] ins by simp
qed

lemma map_filter_id_map: "List.map_filter (\<lambda>x. x) (map f xs) = List.map_filter f xs"
  by (induction xs) (simp_all split: option.splits)

lemma map_filter_append: "List.map_filter f (xs @ ys) = List.map_filter f xs @ List.map_filter f ys"
  by (induction xs) (simp_all split: option.splits)

lemma map_filter_take_drop:
  "List.map_filter f (take n xs) @ List.map_filter f (drop n xs) = List.map_filter f xs"
  by (metis append_take_drop_id map_filter_append)

lemma indexBatches_fresh:
  "distinct (map row_id (List.map_filter (embedChunk gen d name) chunks)) \<Longrightarrow>
   row_id ` set (List.map_filter (embedChunk gen d name) chunks) \<inter> row_id ` set db = {} \<Longrightarrow>
   indexBatches gen d name db chunks = (db @ List.map_filter (embedChunk gen d name) chunks, None)"
proof (induction gen d name db chunks rule: indexBatches.induct)
  case (1 gen d name db chunks)
  let ?f = "embedChunk gen d name"
  show ?case
  proof (cases "chunks = []")
    case True
    then show ?thesis by (subst indexBatches.simps) simp
  next
    case False
    define batch where "batch = take 5 chunks"
    define batchData where "batchData = map ?f batch"
    have split: "List.map_filter ?f chunks = List.map_filter ?f batch @ List.map_filter ?f (drop 5 chunks)"
      by (simp add: batch_def map_filter_take_drop)
    have bd: "List.map_filter (\<lambda>x. x) batchData = List.map_filter ?f batch"
      by (simp add: batchData_def map_filter_id_map)
    have d1: "distinct (map row_id (List.map_filter (\<lambda>x. x) batchData))"
      using "1.prems"(1) by (simp add: bd split)
    have f1: "row_id ` set (List.map_filter (\<lambda>x. x) batchData) \<inter> row_id ` set db = {}"
      using "1.prems"(2) by (auto simp: bd split)
    have ins: "insert_batch db batchData = Inr (db @ List.map_filter ?f batch)"
      using insert_batch_fresh[OF d1 f1] by (simp add: bd)
    have d2: "distinct (map row_id (List.map_filter ?f (drop 5 chunks)))"
      using "1.prems"(1) by (simp add: split)
    have f2: "row_id ` set (List.map_filter ?f (drop 5 chunks)) \<inter>
              row_id ` set (db @ List.map_filter ?f batch) = {}"
      using "1.prems" by (auto simp: split)
    have "indexBatches gen d name db chunks =
          indexBatches gen d name (db @ List.map_filter ?f batch) (drop 5 chunks)"
      using False ins by (subst indexBatches.simps) (simp add: Let_def batch_def batchData_def)
    also have "\<dots> = ((db @ List.map_filter ?f batch) @ List.map_filter ?f (drop 5 chunks), None)"
      using "1.IH"[OF False batch_def batchData_def ins d2 f2] .
    finally show ?thesis by (simp add: split)
  qed
qed

lemma embedChunk_Some:
  "embedChunk gen d name c = Some r \<Longrightarrow>
   row_id r = chunk_id d (chunkIndex c) \<and> document_id r = d \<and> chunk_index r = chunkIndex c"
  by (auto simp: embedChunk_def split: sum.splits)

lemma new_rows_props:
  assumes "distinct (map chunkIndex chunks)"
  shows "distinct (map row_id (List.map_filter (embedChunk gen d name) chunks))"
    and "\<forall>r\<in>set (List.map_filter (embedChunk gen d name) chunks).
           document_id r = d \<and> row_id r = chunk_id (document_id r) (chunk_index r)"
    and "length (List.map_filter (embedChunk gen d name) chunks) =
         length (filter (\<lambda>c. \<not> isl (gen (text' c))) chunks)"
proof -
  show "distinct (map row_id (List.map_filter (embedChunk gen d name) chunks))"
    using assms
  proof (induction chunks)
    case Nil
    then show ?case by simp
  next
    case (Cons c chunks)
    show ?case
    proof (cases "embedChunk gen d name c")
      case None
      then show ?thesis using Cons by simp
    next
      case (Some r)
      have "row_id r \<notin> row_id ` set (List.map_filter (embedChunk gen d name) chunks)"
      proof
        assume "row_id r \<in> row_id ` set (List.map_filter (embedChunk gen d name) chunks)"
        then obtain r' c' where "c' \<in> set chunks" "embedChunk gen d name c' = Some r'" "row_id r' = row_id r"
          by (auto simp: List.map_filter_def)
        then have "chunkIndex c' = chunkIndex c"
          using embedChunk_Some[OF Some] embedChunk_Some[of gen d name c' r'] chunk_id_inj by metis
        moreover have "chunkIndex c \<notin> chunkIndex ` set chunks" using Cons.prems by simp
        ultimately show False using \<open>c' \<in> set chunks\<close> by (metis imageI)
      qed
      then show ?thesis using Some Cons by simp
    qed
  qed
  show "\<forall>r\<in>set (List.map_filter (embedChunk gen d name) chunks).
           document_id r = d \<and> row_id r = chunk_id (document_id r) (chunk_index r)"
    by (induction chunks) (auto split: option.splits dest!: embedChunk_Some)
  show "length (List.map_filter (embedChunk gen d name) chunks) =
         length (filter (\<lambda>c. \<not> isl (gen (text' c))) chunks)"
    by (induction chunks) (auto simp: embedChunk_def split: sum.splits)
qed

lemma indexDocument_result:
  assumes wf: "wf_ids db" and ch: "chunkText txt 1000 200 = Inr chunks"
  shows "indexDocument gen db d name txt =
     \<lparr>table = filter (\<lambda>r. document_id r \<noteq> d) db @ List.map_filter (embedChunk gen d name) chunks,
      removed = length (stored db d), thrown = None\<rparr>"
proof (cases "chunks = []")
  case True
  then show ?thesis using ch by (simp add: indexDocument_def delete_rows_def stored_def)
next
  case False
  let ?db1 = "filter (\<lambda>r. document_id r \<noteq> d) db"
  let ?new = "List.map_filter (embedChunk gen d name) chunks"
  have di: "distinct (map chunkIndex chunks)"
    using chunkText_indices[OF ch] by (simp add: distinct_map inj_on_def)
  note N = new_rows_props[OF di, of gen d name]
  have fresh: "row_id ` set ?new \<inter> row_id ` set ?db1 = {}"
  proof (rule ccontr)
    assume "row_id ` set ?new \<inter> row_id ` set ?db1 \<noteq> {}"
    then obtain r r' where r: "r \<in> set ?new" and r': "r' \<in> set db" "document_id r' \<noteq> d"
      and e: "row_id r = row_id r'" by auto
    have "row_id r = chunk_id d (chunk_index r)" using N(2) r by auto
    moreover have "row_id r' = chunk_id (document_id r') (chunk_index r')"
      using wf r'(1) by (simp add: wf_ids_def)
    ultimately have "d = document_id r'" using e chunk_id_inj by metis
    then show False using r'(2) by simp
  qed
  have "indexBatches gen d name ?db1 chunks = (?db1 @ ?new, None)"
    using N(1) fresh by (rule indexBatches_fresh)
  then show ?thesis using ch False
    by (simp add: indexDocument_def delete_rows_def stored_def)
qed

lemma indexDocument_wf:
  assumes wf: "wf_ids db" and ch: "chunkText txt 1000 200 = Inr chunks"
  shows "wf_ids (table (indexDocument gen db d name txt))"
    and "stored (table (indexDocument gen db d name txt)) d = List.map_filter (embedChunk gen d name) chunks"
proof -
  have di: "distinct (map chunkIndex chunks)"
    using chunkText_indices[OF ch] by (simp add: distinct_map inj_on_def)
  note N = new_rows_props[OF di, of gen d name]
  show "wf_ids (table (indexDocument gen db d name txt))"
    using wf N(2) by (auto simp: indexDocument_result[OF wf ch] wf_ids_def)
  have "filter (\<lambda>r. document_id r = d) (List.map_filter (embedChunk gen d name) chunks) =
        List.map_filter (embedChunk gen d name) chunks"
    using N(2) by (intro filter_True) simp
  moreover have "filter (\<lambda>r. document_id r = d) (filter (\<lambda>r. document_id r \<noteq> d) db) = []"
    by (simp add: filter_empty_conv)
  ultimately show "stored (table (indexDocument gen db d name txt)) d = List.map_filter (embedChunk gen d name) chunks"
    by (simp add: indexDocument_result[OF wf ch] stored_def)
qed

text \<open>
  Claim C7 (as the code behaves). On a table whose row ids are the composite ids,
  \<open>indexDocument\<close> for document \<open>d\<close> and text \<open>t\<close> does not throw; it removes every row
  stored for \<open>d\<close> and reports their number; it then appends, in order, one row for each
  chunk of \<open>chunkText t 1000 200\<close> whose embedding is produced, passing over the chunks
  whose embedding fails. Indexing the same text again removes exactly the rows the
  first run stored for \<open>d\<close>, and stores as many rows as the first run when the
  embeddings of the same chunks succeed in both runs.
\<close>

theorem indexDocument_replace_semantics:
  assumes "wf_ids db"
  shows "\<exists>chunks. chunkText txt 1000 200 = Inr chunks \<and>
     table (indexDocument gen db d name txt) =
       filter (\<lambda>r. document_id r \<noteq> d) db @ List.map_filter (embedChunk gen d name) chunks \<and>
     stored (table (indexDocument gen db d name txt)) d = List.map_filter (embedChunk gen d name) chunks \<and>
     removed (indexDocument gen db d name txt) = length (stored db d) \<and>
     thrown (indexDocument gen db d name txt) = None \<and>
     removed (indexDocument gen' (table (indexDocument gen db d name txt)) d name' txt) =
       length (stored (table (indexDocument gen db d name txt)) d) \<and>
     ((\<forall>c\<in>set chunks. isl (gen' (text' c)) = isl (gen (text' c))) \<longrightarrow>
        length (stored (table (indexDocument gen' (table (indexDocument gen db d name txt)) d name' txt)) d) =
        length (stored (table (indexDocument gen db d name txt)) d))"
proof -
  obtain chunks where ch: "chunkText txt 1000 200 = Inr chunks"
    using chunkText_default_returns by blast
  let ?r1 = "indexDocument gen db d name txt"
  let ?r2 = "indexDocument gen' (table ?r1) d name' txt"
  have di: "distinct (map chunkIndex chunks)"
    using chunkText_indices[OF ch] by (simp add: distinct_map inj_on_def)
  have wf1: "wf_ids (table ?r1)" using assms ch by (rule indexDocument_wf)
  have s1: "stored (table ?r1) d = List.map_filter (embedChunk gen d name) chunks"
    using assms ch by (rule indexDocument_wf)
  have s2: "stored (table ?r2) d = List.map_filter (embedChunk gen' d name') chunks"
    using wf1 ch by (rule indexDocument_wf)
  have same: "length (stored (table ?r2) d) = length (stored (table ?r1) d)"
    if "\<forall>c\<in>set chunks. isl (gen' (text' c)) = isl (gen (text' c))"
  proof -
    have "filter (\<lambda>c. \<not> isl (gen' (text' c))) chunks = filter (\<lambda>c. \<not> isl (gen (text' c))) chunks"
      using that by (intro filter_cong) simp_all
    then show ?thesis
      by (simp add: s1 s2 new_rows_props(3)[OF di])
  qed
  have t1: "table ?r1 =
       filter (\<lambda>r. document_id r \<noteq> d) db @ List.map_filter (embedChunk gen d name) chunks"
    and m1: "removed ?r1 = length (stored db d)" and e1: "thrown ?r1 = None"
    by (simp_all add: indexDocument_result[OF assms ch])
  have m2: "removed ?r2 = length (stored (table ?r1) d)"
    by (simp only: indexDocument_result[OF wf1 ch] index_result.simps)
  from ch t1 s1 m1 e1 m2 same show ?thesis by blast
qed

lemma chunkText_abc:
  "chunkText ''abc'' 1000 200 =
     Inr [\<lparr>text' = ''abc'', startIndex = 0, endIndex = 3, chunkIndex = 0\<rparr>]"
proof -
  have M: "ceil_div (int (length ''abc'')) (1000 - 200) + 100 = 101" by (simp add: ceil_div_def)
  have "chunkLoop ''abc'' 1000 200 101 0 0 0 [] =
        [\<lparr>text' = ''abc'', startIndex = 0, endIndex = 3, chunkIndex = 0\<rparr>]"
    apply (subst chunkLoop.simps, simp add: Let_def slice_def)
    apply (subst chunkLoop.simps, simp)
    done
  then show ?thesis using chunkText_valid[of "''abc''" 1000 200] M by simp
qed

lemma wf_ids_demo: "wf_ids demo_db"
  by (simp add: wf_ids_def demo_db_def demo_row_def)

theorem indexDocument_replace_semantics_witness:
  "wf_ids demo_db \<and>
   (\<exists>chunks. chunkText ''abc'' 1000 200 = Inr chunks \<and>
     table (indexDocument demo_embed demo_db ''a'' ''n'' ''abc'') =
       filter (\<lambda>r. document_id r \<noteq> ''a'') demo_db @
       List.map_filter (embedChunk demo_embed ''a'' ''n'') chunks \<and>
     stored (table (indexDocument demo_embed demo_db ''a'' ''n'' ''abc'')) ''a'' =
       List.map_filter (embedChunk demo_embed ''a'' ''n'') chunks \<and>
     removed (indexDocument demo_embed demo_db ''a'' ''n'' ''abc'') = length (stored demo_db ''a'') \<and>
     thrown (indexDocument demo_embed demo_db ''a'' ''n'' ''abc'') = None \<and>
     removed (indexDocument demo_embed (table (indexDocument demo_embed demo_db ''a'' ''n'' ''abc'')) ''a'' ''n'' ''abc'') =
       length (stored (table (indexDocument demo_embed demo_db ''a'' ''n'' ''abc'')) ''a'') \<and>
     ((\<forall>c\<in>set chunks. isl (demo_embed (text' c)) = isl (demo_embed (text' c))) \<longrightarrow>
        length (stored (table (indexDocument demo_embed (table (indexDocument demo_embed demo_db ''a'' ''n'' ''abc'')) ''a'' ''n'' ''abc'')) ''a'') =
        length (stored (table (indexDocument demo_embed demo_db ''a'' ''n'' ''abc'')) ''a'')))"
  using indexDocument_replace_semantics[OF wf_ids_demo, of "''abc''" demo_embed "''a''" "''n''" demo_embed "''n''"]
    wf_ids_demo by blast

text \<open>Indexing the same text twice need not store the same number of rows: when the
  embedding of the only chunk fails in the first run and succeeds in the second, the
  first run stores no row for the document and the second stores one.\<close>

theorem indexDocument_reindex_count_counterexample:
  "length (stored (table (indexDocument demo_fail ([] :: (char, nat) row list) ''a'' ''n'' ''abc'')) ''a'') = 0 \<and>
   length (stored (table (indexDocument demo_embed
      (table (indexDocument demo_fail ([] :: (char, nat) row list) ''a'' ''n'' ''abc'')) ''a'' ''n'' ''abc'')) ''a'') = 1"
proof -
  have wf: "wf_ids ([] :: (char, nat) row list)" by (simp add: wf_ids_def)
  have r1: "table (indexDocument demo_fail ([] :: (char, nat) row list) ''a'' ''n'' ''abc'') = []"
    by (simp add: indexDocument_result[OF wf chunkText_abc] embedChunk_def demo_fail_def)
  show ?thesis unfolding r1
    by (simp add: indexDocument_result[OF wf chunkText_abc] embedChunk_def demo_fail_def
        demo_embed_def stored_def)
qed

section \<open>Properties of the query classifier\<close>

lemma matchPrefix_lang:
  "t \<in> set (matchPrefix r s) \<longleftrightarrow>
   (\<exists>u w. w \<in> lang r \<and> s = u @ t \<and> map upper_char u = map upper_char w)"
proof (induction r arbitrary: s t)
  case (Lit w)
  show ?case
  proof
    assume "t \<in> set (matchPrefix (Lit w) s)"
    then have c: "length w \<le> length s" "map upper_char (take (length w) s) = map upper_char w"
      and t: "t = drop (length w) s" by (auto split: if_splits)
    have "s = take (length w) s @ t" by (simp add: t)
    then show "\<exists>u w'. w' \<in> lang (Lit w) \<and> s = u @ t \<and> map upper_char u = map upper_char w'"
      using c by auto
  next
    assume "\<exists>u w'. w' \<in> lang (Lit w) \<and> s = u @ t \<and> map upper_char u = map upper_char w'"
    then obtain u where u: "s = u @ t" "map upper_char u = map upper_char w" by auto
    from u(2) have "length u = length w" by (metis length_map)
    then show "t \<in> set (matchPrefix (Lit w) s)" using u by simp
  qed
next
  case (Alt a b)
  then show ?case by auto
next
  case (Seq a b)
  show ?case
  proof
    assume "t \<in> set (matchPrefix (Seq a b) s)"
    then obtain m where m: "m \<in> set (matchPrefix a s)" "t \<in> set (matchPrefix b m)" by auto
    from m(1) Seq.IH(1) obtain u1 w1 where 1: "w1 \<in> lang a" "s = u1 @ m" "map upper_char u1 = map upper_char w1"
      by blast
    from m(2) Seq.IH(2) obtain u2 w2 where 2: "w2 \<in> lang b" "m = u2 @ t" "map upper_char u2 = map upper_char w2"
      by blast
    have "w1 @ w2 \<in> lang (Seq a b)" using 1(1) 2(1) by auto
    moreover have "s = (u1 @ u2) @ t" using 1(2) 2(2) by simp
    moreover have "map upper_char (u1 @ u2) = map upper_char (w1 @ w2)" using 1(3) 2(3) by simp
    ultimately show "\<exists>u w. w \<in> lang (Seq a b) \<and> s = u @ t \<and> map upper_char u = map upper_char w"
      by blast
  next
    assume "\<exists>u w. w \<in> lang (Seq a b) \<and> s = u @ t \<and> map upper_char u = map upper_char w"
    then obtain u w1 w2 where w: "w1 \<in> lang a" "w2 \<in> lang b" and s: "s = u @ t"
      and e: "map upper_char u = map upper_char (w1 @ w2)" by auto
    define u1 where "u1 = take (length w1) u"
    define u2 where "u2 = drop (length w1) u"
    have u: "u = u1 @ u2" by (simp add: u1_def u2_def)
    have lu: "length u = length w1 + length w2" using e by (metis length_map length_append)
    have "map upper_char u1 = take (length w1) (map upper_char (w1 @ w2))"
      unfolding u1_def e[symmetric] by (simp add: take_map)
    then have e1: "map upper_char u1 = map upper_char w1" by simp
    have "map upper_char u2 = drop (length w1) (map upper_char (w1 @ w2))"
      unfolding u2_def e[symmetric] by (simp add: drop_map)
    then have e2: "map upper_char u2 = map upper_char w2" by simp
    have "u2 @ t \<in> set (matchPrefix a s)"
      using Seq.IH(1)[of "u2 @ t" s] w(1) e1 s u by auto
    moreover have "t \<in> set (matchPrefix b (u2 @ t))"
      using Seq.IH(2)[of t "u2 @ t"] w(2) e2 by auto
    ultimately show "t \<in> set (matchPrefix (Seq a b) s)" by auto
  qed
next
  case (Opt a)
  then show ?case by auto
qed

lemma test_lang:
  "test r s \<longleftrightarrow>
   (\<exists>a u b w. w \<in> lang r \<and> s = a @ u @ b \<and> map upper_char u = map upper_char w)"
proof (induction s)
  case Nil
  have "test r [] \<longleftrightarrow> (\<exists>t. t \<in> set (matchPrefix r []))" by (cases "matchPrefix r []") auto
  then show ?case unfolding matchPrefix_lang by auto
next
  case (Cons c cs)
  have "test r (c # cs) \<longleftrightarrow> (\<exists>t. t \<in> set (matchPrefix r (c # cs))) \<or> test r cs"
    by (cases "matchPrefix r (c # cs)") auto
  also have "\<dots> \<longleftrightarrow> (\<exists>t u w. w \<in> lang r \<and> c # cs = u @ t \<and> map upper_char u = map upper_char w) \<or>
      (\<exists>a u b w. w \<in> lang r \<and> cs = a @ u @ b \<and> map upper_char u = map upper_char w)"
    unfolding matchPrefix_lang Cons.IH by simp
  also have "\<dots> \<longleftrightarrow> (\<exists>a u b w. w \<in> lang r \<and> c # cs = a @ u @ b \<and> map upper_char u = map upper_char w)"
    (is "?L \<longleftrightarrow> ?R")
  proof
    assume ?L
    then show ?R
    proof
      assume "\<exists>t u w. w \<in> lang r \<and> c # cs = u @ t \<and> map upper_char u = map upper_char w"
      then obtain t u w where "w \<in> lang r" "c # cs = [] @ u @ t" "map upper_char u = map upper_char w"
        by auto
      then show ?R by blast
    next
      assume "\<exists>a u b w. w \<in> lang r \<and> cs = a @ u @ b \<and> map upper_char u = map upper_char w"
      then obtain a u b w where "w \<in> lang r" "c # cs = (c # a) @ u @ b" "map upper_char u = map upper_char w"
        by auto
      then show ?R by blast
    qed
  next
    assume ?R
    then obtain a u b w where w: "w \<in> lang r" "c # cs = a @ u @ b" "map upper_char u = map upper_char w"
      by blast
    show ?L
    proof (cases a)
      case Nil
      then show ?thesis using w by auto
    next
      case (Cons x a')
      then have "cs = a' @ u @ b" using w(2) by simp
      then show ?thesis using w by blast
    qed
  qed
  finally show ?case .
qed

lemma of_char_upper:
  "is_lower c \<Longrightarrow> (of_char (upper_char c) :: nat) = of_char c - 32"
proof -
  assume l: "is_lower c"
  then have "(of_char c :: nat) - 32 < 256" unfolding is_lower_def by linarith
  then show ?thesis using l by (simp add: upper_char_def)
qed

lemma upper_char_inj:
  assumes "\<not> is_upper c" and "\<not> is_upper c'" and e: "upper_char c = upper_char c'"
  shows "c = c'"
proof (cases "is_lower c")
  case l: True
  show ?thesis
  proof (cases "is_lower c'")
    case True
    have "(of_char (upper_char c) :: nat) = of_char (upper_char c')" using e by simp
    then have "(of_char c :: nat) - 32 = of_char c' - 32" using l True by (simp add: of_char_upper)
    moreover have "32 \<le> (of_char c :: nat)" "32 \<le> (of_char c' :: nat)"
      using l True unfolding is_lower_def by linarith+
    ultimately have "(of_char c :: nat) = of_char c'" by linarith
    then show ?thesis by simp
  next
    case False
    then have "upper_char c = c'" using e by (simp add: upper_char_def)
    then have "(of_char c' :: nat) = of_char c - 32" using l by (simp add: of_char_upper[symmetric])
    then have "is_upper c'" using l unfolding is_upper_def is_lower_def by linarith
    then show ?thesis using assms(2) by simp
  qed
next
  case nl: False
  show ?thesis
  proof (cases "is_lower c'")
    case True
    have "upper_char c' = c" using e nl by (simp add: upper_char_def)
    then have "(of_char c :: nat) = of_char c' - 32" using True by (simp add: of_char_upper[symmetric])
    then have "is_upper c" using True unfolding is_upper_def is_lower_def by linarith
    then show ?thesis using assms(1) by simp
  next
    case False
    then show ?thesis using e nl by (simp add: upper_char_def)
  qed
qed

lemma map_upper_char_inj:
  "list_all (\<lambda>c. \<not> is_upper c) u \<Longrightarrow> list_all (\<lambda>c. \<not> is_upper c) w \<Longrightarrow>
   map upper_char u = map upper_char w \<Longrightarrow> u = w"
proof (induction u arbitrary: w)
  case Nil
  then show ?case by simp
next
  case (Cons c u)
  from Cons.prems(3) obtain c' w' where w: "w = c' # w'" by (cases w) simp_all
  have e: "upper_char c = upper_char c'" "map upper_char u = map upper_char w'"
    using Cons.prems(3) by (simp_all add: w)
  have n: "\<not> is_upper c" "\<not> is_upper c'" "list_all (\<lambda>c. \<not> is_upper c) u"
      "list_all (\<lambda>c. \<not> is_upper c) w'"
    using Cons.prems(1,2) by (simp_all add: w)
  have "c = c'" using n(1,2) e(1) by (rule upper_char_inj)
  moreover have "u = w'" using n(3,4) e(2) by (rule Cons.IH)
  ultimately show ?case by (simp add: w)
qed

lemma lower_char_not_upper: "\<not> is_upper (lower_char c)"
proof (cases "is_upper c")
  case True
  then have "(of_char c :: nat) + 32 < 256" unfolding is_upper_def by linarith
  then have "(of_char (lower_char c) :: nat) = of_char c + 32" using True by (simp add: lower_char_def)
  then show ?thesis using True unfolding is_upper_def by linarith
next
  case False
  then show ?thesis by (simp add: lower_char_def)
qed

lemma trim_toLowerCase_lower: "list_all (\<lambda>c. \<not> is_upper c) (trim (toLowerCase q))"
proof -
  have "set (trim (toLowerCase q)) \<subseteq> set (toLowerCase q)"
  proof
    fix c assume "c \<in> set (trim (toLowerCase q))"
    then have "c \<in> set (dropWhile is_space (rev (dropWhile is_space (toLowerCase q))))"
      by (simp add: trim_def)
    then have "c \<in> set (rev (dropWhile is_space (toLowerCase q)))" by (rule set_dropWhileD)
    then have "c \<in> set (dropWhile is_space (toLowerCase q))" by simp
    then show "c \<in> set (toLowerCase q)" by (rule set_dropWhileD)
  qed
  then show ?thesis by (auto simp: list_all_iff toLowerCase_def lower_char_not_upper)
qed

lemma lower_regex_lang: "lower_regex r \<Longrightarrow> w \<in> lang r \<Longrightarrow> list_all (\<lambda>c. \<not> is_upper c) w"
  by (induction r arbitrary: w) auto

lemma test_lower:
  assumes "lower_regex r" and "list_all (\<lambda>c. \<not> is_upper c) s"
  shows "test r s \<longleftrightarrow> (\<exists>w\<in>lang r. sublist w s)"
proof
  assume "test r s"
  then obtain a u b w where w: "w \<in> lang r" "s = a @ u @ b" "map upper_char u = map upper_char w"
    unfolding test_lang by blast
  have "list_all (\<lambda>c. \<not> is_upper c) u" using assms(2) w(2) by simp
  then have "u = w" using lower_regex_lang[OF assms(1) w(1)] w(3) by (rule map_upper_char_inj)
  then show "\<exists>w\<in>lang r. sublist w s" using w by (auto simp: sublist_def)
next
  assume "\<exists>w\<in>lang r. sublist w s"
  then show "test r s" unfolding test_lang sublist_def by blast
qed

lemma generalPatterns_lower: "p \<in> set generalPatterns \<Longrightarrow> lower_regex p"
  by (auto simp: generalPatterns_def is_upper_def)

lemma matchPrefix_Lit_Nil: "matchPrefix (Lit []) s = [s]"
  by simp

lemma matchPrefix_Lit_Cons_Nil: "matchPrefix (Lit (c # w)) [] = []"
  by simp

lemma matchPrefix_Lit_Cons:
  "matchPrefix (Lit (c # w)) (d # s) =
     (if upper_char c = upper_char d then matchPrefix (Lit w) s else [])"
  by simp

lemmas matchPrefix_eval = matchPrefix_Lit_Nil matchPrefix_Lit_Cons_Nil matchPrefix_Lit_Cons
  matchPrefix.simps(2-4)

lemma lower_general_example: "trim (toLowerCase ''Summarize this document'') = ''summarize this document''"
  by (simp add: trim_def toLowerCase_def lower_char_def is_upper_def is_space_def char_of_eq_iff)

lemma lower_specific_example: "trim (toLowerCase ''What was the revenue in Q3?'') = ''what was the revenue in q3?''"
  by (simp add: trim_def toLowerCase_def lower_char_def is_upper_def is_space_def char_of_eq_iff)

lemma general_example: "isGeneralQuestion ''Summarize this document''"
  unfolding isGeneralQuestion_def Let_def lower_general_example generalPatterns_def
  by (simp only: list_ex_Nil_iff list_ex_Cons_iff test.simps seqs.simps alts.simps matchPrefix_eval)
     (simp add: upper_char_def is_lower_def)

lemma specific_example: "\<not> isGeneralQuestion ''What was the revenue in Q3?''"
  unfolding isGeneralQuestion_def Let_def lower_specific_example generalPatterns_def
  by (simp only: list_ex_Nil_iff list_ex_Cons_iff test.simps seqs.simps alts.simps matchPrefix_eval)
     (simp add: upper_char_def is_lower_def)

text \<open>
  Claim C9. The classifier is a function of the question alone. A question is classified
  General exactly when one of the eight patterns matches its lower-cased, trimmed text,
  that is, when that text contains a word of one of the patterns; a question that no
  pattern matches is classified Specific. \<^verbatim>\<open>"Summarize this document"\<close> is General and
  \<^verbatim>\<open>"What was the revenue in Q3?"\<close> is Specific.
\<close>

theorem isGeneralQuestion_templates:
  "(isGeneralQuestion question \<longleftrightarrow>
      (\<exists>p\<in>set generalPatterns. test p (trim (toLowerCase question)))) \<and>
   (isGeneralQuestion question \<longleftrightarrow>
      (\<exists>p\<in>set generalPatterns. \<exists>w\<in>lang p. sublist w (trim (toLowerCase question)))) \<and>
   isGeneralQuestion ''Summarize this document'' \<and>
   \<not> isGeneralQuestion ''What was the revenue in Q3?''"
proof -
  have a: "isGeneralQuestion question \<longleftrightarrow>
      (\<exists>p\<in>set generalPatterns. test p (trim (toLowerCase question)))"
    by (simp add: isGeneralQuestion_def list_ex_iff)
  have b: "test p (trim (toLowerCase question)) \<longleftrightarrow>
      (\<exists>w\<in>lang p. sublist w (trim (toLowerCase question)))" if "p \<in> set generalPatterns" for p
    using generalPatterns_lower[OF that] trim_toLowerCase_lower by (rule test_lower)
  show ?thesis using a b general_example specific_example by auto
qed

theorem isGeneralQuestion_templates_witness:
  "isGeneralQuestion ''what is this'' \<longleftrightarrow>
     (\<exists>p\<in>set generalPatterns. \<exists>w\<in>lang p. sublist w (trim (toLowerCase ''what is this'')))"
  using isGeneralQuestion_templates[of "''what is this''"] by blast

section \<open>Properties of the retrieval\<close>

text \<open>
  Claim C4. For a question classified General and a non-empty list of document ids, the
  first call to the store is a search with \<open>k = 25\<close>; when it returns fewer than 10
  chunks, the second call asks for all chunks of those documents and the context is the
  first 50 of them; when it returns 10 or more, there is no second call and the context
  is the chunks found. For an empty (or absent) list of document ids no call to the
  store is made and the context is empty.
\<close>

theorem retrieveContext_general:
  "(isGeneralQuestion question \<and> ids \<noteq> [] \<longrightarrow>
      (\<exists>more. storeCalls (retrieveContext search allChunksOf question (Some ids) limit) =
                SearchCall question 25 ids # more)) \<and>
   (isGeneralQuestion question \<and> ids \<noteq> [] \<and> search question 25 ids = Inr found \<and>
    length found < 10 \<and> allChunksOf ids = Inr allChunks \<longrightarrow>
      storeCalls (retrieveContext search allChunksOf question (Some ids) limit) =
        [SearchCall question 25 ids, AllChunksCall ids] \<and>
      contextChunks (retrieveContext search allChunksOf question (Some ids) limit) =
        take 50 allChunks) \<and>
   (isGeneralQuestion question \<and> ids \<noteq> [] \<and> search question 25 ids = Inr found \<and>
    10 \<le> length found \<longrightarrow>
      storeCalls (retrieveContext search allChunksOf question (Some ids) limit) =
        [SearchCall question 25 ids] \<and>
      contextChunks (retrieveContext search allChunksOf question (Some ids) limit) = found) \<and>
   storeCalls (retrieveContext search allChunksOf question (Some []) limit) = [] \<and>
   contextChunks (retrieveContext search allChunksOf question (Some []) limit) = [] \<and>
   contextText (retrieveContext search allChunksOf question (Some []) limit) = [] \<and>
   storeCalls (retrieveContext search allChunksOf question None limit) = [] \<and>
   contextChunks (retrieveContext search allChunksOf question None limit) = [] \<and>
   contextText (retrieveContext search allChunksOf question None limit) = []"
proof -
  let ?r = "retrieveContext search allChunksOf question (Some ids) limit"
  have take50: "slice xs 0 50 = take 50 xs" for xs :: "(char, 'v) DocumentChunk list"
    by (simp add: slice_def Let_def min_def)
  have a: "\<exists>more. storeCalls ?r = SearchCall question 25 ids # more"
    if "isGeneralQuestion question" "ids \<noteq> []"
    using that by (auto simp: retrieveContext_def Let_def split: sum.splits)
  have b: "storeCalls ?r = [SearchCall question 25 ids, AllChunksCall ids] \<and>
           contextChunks ?r = take 50 allChunks"
    if "isGeneralQuestion question" "ids \<noteq> []" "search question 25 ids = Inr found"
       "length found < 10" "allChunksOf ids = Inr allChunks"
    using that by (simp add: retrieveContext_def Let_def take50)
  have c: "storeCalls ?r = [SearchCall question 25 ids] \<and> contextChunks ?r = found"
    if "isGeneralQuestion question" "ids \<noteq> []" "search question 25 ids = Inr found"
       "10 \<le> length found"
    using that by (simp add: retrieveContext_def Let_def)
  have d: "storeCalls (retrieveContext search allChunksOf question (Some []) limit) = []"
    "contextChunks (retrieveContext search allChunksOf question (Some []) limit) = []"
    "contextText (retrieveContext search allChunksOf question (Some []) limit) = []"
    "storeCalls (retrieveContext search allChunksOf question None limit) = []"
    "contextChunks (retrieveContext search allChunksOf question None limit) = []"
    "contextText (retrieveContext search allChunksOf question None limit) = []"
    by (simp_all add: retrieveContext_def)
  show ?thesis using a b c d by blast
qed

lemma demo_search_a:
  "demo_search ''Summarize this document'' 25 [''a''] =
     Inr [rowToChunk (demo_row ''a'' 0 1), rowToChunk (demo_row ''a'' 1 1)]"
  by (simp add: demo_search_def searchSimilarChunks_def select_by_document_ids_def demo_embed_def
      demo_sim_def demo_db_def demo_row_def slice_def rowToChunk_def)

lemma demo_allChunks_a:
  "demo_allChunks [''a''] =
     Inr [rowToChunk (demo_row ''a'' 0 1), rowToChunk (demo_row ''a'' 1 1)]"
  by (simp add: demo_allChunks_def getAllDocumentChunks_def demo_db_def demo_row_def rowToChunk_def)

theorem retrieveContext_general_witness:
  "isGeneralQuestion ''Summarize this document'' \<and> [''a''] \<noteq> [] \<and>
   demo_search ''Summarize this document'' 25 [''a''] =
     Inr [rowToChunk (demo_row ''a'' 0 1), rowToChunk (demo_row ''a'' 1 1)] \<and>
   length [rowToChunk (demo_row ''a'' 0 1), rowToChunk (demo_row ''a'' 1 1)] < 10 \<and>
   demo_allChunks [''a''] = Inr [rowToChunk (demo_row ''a'' 0 1), rowToChunk (demo_row ''a'' 1 1)] \<and>
   storeCalls (retrieveContext demo_search demo_allChunks ''Summarize this document'' (Some [''a'']) 5) =
     [SearchCall ''Summarize this document'' 25 [''a''], AllChunksCall [''a'']] \<and>
   contextChunks (retrieveContext demo_search demo_allChunks ''Summarize this document'' (Some [''a'']) 5) =
     [rowToChunk (demo_row ''a'' 0 1), rowToChunk (demo_row ''a'' 1 1)] \<and>
   demo_many ''Summarize this document'' 25 [''a''] =
     Inr (replicate 10 (rowToChunk (demo_row ''a'' 0 1))) \<and>
   10 \<le> length (replicate 10 (rowToChunk (demo_row ''a'' 0 1))) \<and>
   storeCalls (retrieveContext demo_many
       demo_allChunks ''Summarize this document'' (Some [''a'']) 5) =
     [SearchCall ''Summarize this document'' 25 [''a'']] \<and>
   contextChunks (retrieveContext demo_many
       demo_allChunks ''Summarize this document'' (Some [''a'']) 5) =
     replicate 10 (rowToChunk (demo_row ''a'' 0 1))"
proof -
  note g = general_example
  have ne: "[''a''] \<noteq> []" by simp
  have l: "length [rowToChunk (demo_row ''a'' 0 1), rowToChunk (demo_row ''a'' 1 1)] < 10" by simp
  note T1 = retrieveContext_general[of "''Summarize this document''" "[''a'']" demo_search
      demo_allChunks 5 "[rowToChunk (demo_row ''a'' 0 1), rowToChunk (demo_row ''a'' 1 1)]"
      "[rowToChunk (demo_row ''a'' 0 1), rowToChunk (demo_row ''a'' 1 1)]"]
  note T2 = retrieveContext_general[of "''Summarize this document''" "[''a'']"
      demo_many
      demo_allChunks 5 "replicate 10 (rowToChunk (demo_row ''a'' 0 1))" "[]"]
  have 1: "storeCalls (retrieveContext demo_search demo_allChunks ''Summarize this document'' (Some [''a'']) 5) =
     [SearchCall ''Summarize this document'' 25 [''a''], AllChunksCall [''a'']] \<and>
   contextChunks (retrieveContext demo_search demo_allChunks ''Summarize this document'' (Some [''a'']) 5) =
     take 50 [rowToChunk (demo_row ''a'' 0 1), rowToChunk (demo_row ''a'' 1 1)]"
    using T1 g ne demo_search_a l demo_allChunks_a by blast
  have 2: "storeCalls (retrieveContext demo_many
       demo_allChunks ''Summarize this document'' (Some [''a'']) 5) =
     [SearchCall ''Summarize this document'' 25 [''a'']] \<and>
   contextChunks (retrieveContext demo_many
       demo_allChunks ''Summarize this document'' (Some [''a'']) 5) =
     replicate 10 (rowToChunk (demo_row ''a'' 0 1))"
    using T2 g ne by (simp add: demo_many_def)
  show ?thesis using g demo_search_a demo_allChunks_a 1 2 by (simp add: demo_many_def)
qed

section \<open>Properties of the conversation loop and the event stream\<close>

declare conversationLoop.simps [simp del]

lemma progress_only_append:
  "progress_only os \<Longrightarrow> \<forall>ev\<in>set evs. \<not> terminal ev \<Longrightarrow> progress_only (os @ map Enqueue evs)"
proof -
  assume "progress_only os" and n: "\<forall>ev\<in>set evs. \<not> terminal ev"
  then obtain evs0 where "os = map Enqueue evs0" "\<forall>ev\<in>set evs0. \<not> terminal ev"
    by (auto simp: progress_only_def)
  then have "os @ map Enqueue evs = map Enqueue (evs0 @ evs)" "\<forall>ev\<in>set (evs0 @ evs). \<not> terminal ev"
    using n by auto
  then show ?thesis unfolding progress_only_def by blast
qed

lemma runSearchWeb_events:
  "runSearchWeb parseQuery searchWeb toolCall = (events, reply, used) \<Longrightarrow> \<forall>ev\<in>set events. \<not> terminal ev"
  by (auto simp: runSearchWeb_def Let_def split: sum.splits)

lemma runToolCalls_progress:
  "runToolCalls parseQuery searchWeb toolCalls st = (err, st') \<Longrightarrow> progress_only (ops st) \<Longrightarrow>
   progress_only (ops st') \<and> modelCalls st' = modelCalls st"
proof (induction parseQuery searchWeb toolCalls st rule: runToolCalls.induct)
  case (1 parseQuery searchWeb st)
  then show ?case by simp
next
  case (2 parseQuery searchWeb rest st)
  then show ?case by simp
next
  case (3 parseQuery searchWeb toolCall rest st)
  show ?case
  proof (cases "call_name toolCall = ''search_web''")
    case False
    then show ?thesis using "3.IH"(2) "3.prems" by simp
  next
    case True
    obtain events reply used where r: "runSearchWeb parseQuery searchWeb toolCall = (events, reply, used)"
      by (cases "runSearchWeb parseQuery searchWeb toolCall") auto
    let ?st = "st\<lparr>ops := ops st @ map Enqueue events, history := history st @ [reply],
                    usedWebSearch := (usedWebSearch st \<or> used)\<rparr>"
    have run: "runToolCalls parseQuery searchWeb rest ?st = (err, st')"
      using "3.prems"(1) True r by simp
    have p: "progress_only (ops ?st)"
      using progress_only_append[OF "3.prems"(2) runSearchWeb_events[OF r]] by simp
    from "3.IH"(1)[OF True r[symmetric] refl refl run p]
    show ?thesis by simp
  qed
qed

lemma consumeStream_events:
  "consumeStream chunks (content, toolCalls, events) = (content', toolCalls', events') \<Longrightarrow>
   \<forall>ev\<in>set events. \<not> terminal ev \<Longrightarrow> \<forall>ev\<in>set events'. \<not> terminal ev"
proof (induction chunks "(content, toolCalls, events)" arbitrary: content toolCalls events
    rule: consumeStream.induct)
  case 1
  then show ?case by simp
next
  case (2 chunks)
  then show ?case by simp
next
  case (3 dl chunks messageContent toolCalls events)
  then show ?case by (auto simp: Let_def split: if_splits)
qed

lemma conversationLoop_stop:
  "\<not> i < maxIterations \<Longrightarrow> conversationLoop create pq sw g i st = (None, st)"
  by (subst conversationLoop.simps) simp

lemma conversationLoop_progress:
  "conversationLoop create pq sw g i st = (err, st') \<Longrightarrow> progress_only (ops st) \<Longrightarrow>
   progress_only (ops st') \<and>
   length (modelCalls st') \<le> length (modelCalls st) + (maxIterations - i)"
proof (induction "maxIterations - i" arbitrary: i st)
  case 0
  then have "\<not> i < maxIterations" by simp
  then have "conversationLoop create pq sw g i st = (None, st)" by (rule conversationLoop_stop)
  then show ?case using "0.prems" by simp
next
  case (Suc n)
  then have lt: "i < maxIterations" by simp
  define st1 where "st1 = (if i + 1 = 1
                    then st\<lparr>ops := ops st @ [Enqueue (Thinking ''Processing your question...'')]\<rparr>
                    else st)"
  define st2 where "st2 = st1\<lparr>modelCalls := modelCalls st1 @ [history st1]\<rparr>"
  have "\<forall>ev\<in>set [Thinking ''Processing your question...'']. \<not> terminal ev" by simp
  from progress_only_append[OF Suc.prems(2) this]
  have p1: "progress_only (ops st1)" using Suc.prems(2) by (simp add: st1_def)
  then have p2: "progress_only (ops st2)" by (simp add: st2_def)
  have m2: "length (modelCalls st2) = length (modelCalls st) + 1" by (simp add: st2_def st1_def)
  have bound: "length (modelCalls st) + 1 \<le> length (modelCalls st) + (maxIterations - i)"
    using lt by simp
  have unf: "conversationLoop create pq sw g i st =
     (case create (history st1) (if g then 2000 else 1000) of
              CreateThrows e \<Rightarrow> (Some e, st2)
            | Stream chunks failure \<Rightarrow>
                (case consumeStream chunks ([], [], []) of
                   (messageContent, toolCalls, events) \<Rightarrow>
                     (let st3 = st2\<lparr>ops := ops st2 @ map Enqueue events\<rparr>
                      in case failure of
                           Some e \<Rightarrow> (Some e, st3)
                         | None \<Rightarrow>
                             (let st4 = st3\<lparr>history := history st3 @
                                     [AssistantMessage
                                        (if messageContent = [] then None else Some messageContent)
                                        toolCalls]\<rparr>
                              in if length toolCalls > 0 then
                                   (case runToolCalls pq sw toolCalls st4 of
                                      (Some e, st5) \<Rightarrow> (Some e, st5)
                                    | (None, st5) \<Rightarrow>
                                        conversationLoop create pq sw g (i + 1) st5)
                                 else (None, st4)))))"
    unfolding st1_def st2_def
    by (subst conversationLoop.simps) (simp only: lt if_True Let_def)
  show ?case
  proof (cases "create (history st1) (if g then 2000 else 1000)")
    case (CreateThrows e)
    then have "st' = st2" using Suc.prems(1) unf by simp
    then show ?thesis using p2 m2 bound by simp
  next
    case (Stream chunks failure)
    obtain messageContent toolCalls events
      where cs: "consumeStream chunks ([], [], []) = (messageContent, toolCalls, events)"
      by (cases "consumeStream chunks ([], [], [])") auto
    define st3 where "st3 = st2\<lparr>ops := ops st2 @ map Enqueue events\<rparr>"
    define st4 where "st4 = st3\<lparr>history := history st3 @
                                     [AssistantMessage
                                        (if messageContent = [] then None else Some messageContent)
                                        toolCalls]\<rparr>"
    have "\<forall>ev\<in>set events. \<not> terminal ev" using consumeStream_events[OF cs] by simp
    from progress_only_append[OF p2 this]
    have p3: "progress_only (ops st3)" by (simp add: st3_def)
    then have p4: "progress_only (ops st4)" by (simp add: st4_def)
    have m4: "length (modelCalls st4) = length (modelCalls st) + 1" using m2 by (simp add: st4_def st3_def)
    show ?thesis
    proof (cases failure)
      case (Some e)
      then have "st' = st3" using Suc.prems(1) unf Stream cs by (simp add: st3_def)
      then show ?thesis using p3 m2 bound by (simp add: st3_def)
    next
      case None
      show ?thesis
      proof (cases "length toolCalls > 0")
        case False
        then have "st' = st4" using Suc.prems(1) unf Stream cs None by (simp add: st3_def st4_def)
        then show ?thesis using p4 m4 bound by simp
      next
        case True
        obtain e5 st5 where rt: "runToolCalls pq sw toolCalls st4 = (e5, st5)"
          by (cases "runToolCalls pq sw toolCalls st4") auto
        from runToolCalls_progress[OF rt p4]
        have p5: "progress_only (ops st5)" and m5: "modelCalls st5 = modelCalls st4" by simp_all
        show ?thesis
        proof (cases e5)
          case (Some e)
          then have "st' = st5" using Suc.prems(1) unf Stream cs None True rt
            by (simp add: st3_def st4_def)
          then show ?thesis using p5 m5 m4 bound by simp
        next
          case e5None: None
          then have rec: "conversationLoop create pq sw g (i + 1) st5 = (err, st')"
            using Suc.prems(1) unf Stream cs None True rt by (simp add: st3_def st4_def)
          have "n = maxIterations - (i + 1)" using Suc.hyps(2) by simp
          from Suc.hyps(1)[OF this rec p5]
          have ih: "progress_only (ops st')"
            "length (modelCalls st') \<le> length (modelCalls st5) + (maxIterations - (i + 1))"
            by blast+
          have "length (modelCalls st5) = length (modelCalls st) + 1" using m5 m4 by simp
          then have "length (modelCalls st') \<le> length (modelCalls st) + (maxIterations - i)"
            using ih(2) lt by arith
          then show ?thesis using ih(1) by blast
        qed
      qed
    qed
  qed
qed

lemma documentSearchEvents_progress:
  "\<forall>ev\<in>set (documentSearchEvents question documentIds r). \<not> terminal ev"
  by (auto simp: documentSearchEvents_def)

text \<open>
  Claim C6. For every request the streaming handler writes events that are neither
  \<^verbatim>\<open>done\<close> nor \<^verbatim>\<open>error\<close>, then exactly one terminal event (\<^verbatim>\<open>done\<close> or
  \<^verbatim>\<open>error\<close>), then closes the stream; nothing is done on the stream after the close.
\<close>

theorem streamPOST_one_terminal_event:
  "\<exists>evs final. streamOps (streamPOST env) = map Enqueue evs @ [Enqueue final, Close] \<and>
      terminal final \<and> (\<forall>ev\<in>set evs. \<not> terminal ev)"
proof -
  have fin: "\<exists>evs final. os @ [Enqueue t, Close] = map Enqueue evs @ [Enqueue final, Close] \<and>
      terminal final \<and> (\<forall>ev\<in>set evs. \<not> terminal ev)" if "progress_only os" "terminal t" for os t
    using that unfolding progress_only_def by blast
  have nil: "progress_only []" by (simp add: progress_only_def)
  show ?thesis
  proof (cases "env_requestJson env")
    case (Inl e)
    then have "streamOps (streamPOST env) = [] @ [Enqueue (ErrorEvent (error_message e)), Close]"
      by (simp add: streamPOST_def)
    then show ?thesis using fin[OF nil, of "ErrorEvent (error_message e)"] by simp
  next
    case (Inr body)
    show ?thesis
    proof (cases "truthy (body_question body)")
      case False
      then have "streamOps (streamPOST env) =
          [] @ [Enqueue (ErrorEvent ''Question is required and must be a string''), Close]"
        using Inr by (simp add: streamPOST_def)
      then show ?thesis
        using fin[OF nil, of "ErrorEvent ''Question is required and must be a string''"] by simp
    next
      case True
      define question where "question = the (body_question body)"
      define limit where "limit = (case body_limit body of None \<Rightarrow> 5 | Some l \<Rightarrow> l)"
      define r where "r = retrieveContext (env_search env) (env_allChunksOf env) question
                       (body_documentIds body) limit"
      define events where "events = documentSearchEvents question (body_documentIds body) r"
      have "\<forall>ev\<in>set events. \<not> terminal ev" by (simp add: events_def documentSearchEvents_progress)
      from progress_only_append[OF nil this]
      have pe: "progress_only (map Enqueue events)" by simp
      show ?thesis
      proof (cases "env_openaiKey env")
        case False
        then have "streamOps (streamPOST env) = map Enqueue events @
                     [Enqueue (ErrorEvent ''OPENAI_API_KEY environment variable is not set''), Close]"
          using Inr True
          by (simp add: streamPOST_def Let_def question_def limit_def r_def events_def)
        then show ?thesis
          using fin[OF pe, of "ErrorEvent ''OPENAI_API_KEY environment variable is not set''"] by simp
      next
        case key: True
        define st0 where "st0 = \<lparr>ops = map Enqueue events,
                           history = [SystemMessage (systemPrompt (contextText r) (isGeneral r)),
                                      UserMessage (userPrompt (contextText r) (isGeneral r) question)],
                           usedWebSearch = False, modelCalls = []\<rparr>"
        obtain err st where loop: "conversationLoop (env_create env) (env_parseQuery env)
            (env_searchWeb env) (isGeneral r) 0 st0 = (err, st)"
          by (cases "conversationLoop (env_create env) (env_parseQuery env)
            (env_searchWeb env) (isGeneral r) 0 st0") auto
        have "progress_only (ops st0)" using pe by (simp add: st0_def)
        from conversationLoop_progress[OF loop this]
        have ps: "progress_only (ops st)" by simp
        show ?thesis
        proof (cases err)
          case None
          then have "streamOps (streamPOST env) = ops st @
                          [Enqueue (Done (length (contextText r) > 0) (length (contextChunks r))
                                      (usedWebSearch st)), Close]"
            using Inr True key loop
            by (simp add: streamPOST_def Let_def question_def limit_def r_def events_def st0_def)
          then show ?thesis
            using fin[OF ps, of "Done (length (contextText r) > 0) (length (contextChunks r))
                                      (usedWebSearch st)"] by simp
        next
          case (Some e)
          then have "streamOps (streamPOST env) = ops st @ [Enqueue (ErrorEvent (error_message e)), Close]"
            using Inr True key loop
            by (simp add: streamPOST_def Let_def question_def limit_def r_def events_def st0_def)
          then show ?thesis using fin[OF ps, of "ErrorEvent (error_message e)"] by simp
        qed
      qed
    qed
  qed
qed

lemma streamPOST_at_most_5_completions: "length (completions (streamPOST env)) \<le> 5"
proof (cases "env_requestJson env")
  case (Inl e)
  then show ?thesis by (simp add: streamPOST_def)
next
  case (Inr body)
  show ?thesis
  proof (cases "truthy (body_question body) \<and> env_openaiKey env")
    case False
    then show ?thesis using Inr by (auto simp: streamPOST_def Let_def)
  next
    case True
    define question where "question = the (body_question body)"
    define limit where "limit = (case body_limit body of None \<Rightarrow> 5 | Some l \<Rightarrow> l)"
    define r where "r = retrieveContext (env_search env) (env_allChunksOf env) question
                       (body_documentIds body) limit"
    define events where "events = documentSearchEvents question (body_documentIds body) r"
    define st0 where "st0 = \<lparr>ops = map Enqueue events,
                           history = [SystemMessage (systemPrompt (contextText r) (isGeneral r)),
                                      UserMessage (userPrompt (contextText r) (isGeneral r) question)],
                           usedWebSearch = False, modelCalls = []\<rparr>"
    obtain err st where loop: "conversationLoop (env_create env) (env_parseQuery env)
            (env_searchWeb env) (isGeneral r) 0 st0 = (err, st)"
      by (cases "conversationLoop (env_create env) (env_parseQuery env)
            (env_searchWeb env) (isGeneral r) 0 st0") auto
    have "\<forall>ev\<in>set events. \<not> terminal ev" by (simp add: events_def documentSearchEvents_progress)
    then have "progress_only (ops st0)" by (auto simp: st0_def progress_only_def)
    from conversationLoop_progress[OF loop this]
    have "length (modelCalls st) \<le> 5" by (simp add: st0_def maxIterations_def)
    moreover have "completions (streamPOST env) = modelCalls st"
      using Inr True loop
      by (cases err) (simp_all add: streamPOST_def Let_def question_def limit_def r_def events_def st0_def)
    ultimately show ?thesis by simp
  qed
qed

theorem streamPOST_one_terminal_event_witness:
  "\<exists>evs final. streamOps (streamPOST tools_stream_env) = map Enqueue evs @ [Enqueue final, Close] \<and>
      terminal final \<and> (\<forall>ev\<in>set evs. \<not> terminal ev)"
  by (rule streamPOST_one_terminal_event)

declare answerLoop.simps [simp del]

lemma show_nat_0: "show_nat 0 = ''0''"
  by (subst show_nat.simps) (simp add: char_of_eq_iff)

lemma demo_round_stream:
  "consumeStream [Some demo_tool_delta] ([], [], []) =
     ([], [Some \<lparr>call_id = ''call_1'', call_name = ''search_web'', call_arguments = ''q''\<rparr>], [])"
  by (simp add: demo_tool_delta_def applyToolCallDelta_def truthy_def Let_def)

lemma demo_tool_run:
  "runToolCalls (\<lambda>arguments. Inr ''x'') (\<lambda>query maxResults. Inr [])
     [Some \<lparr>call_id = ''call_1'', call_name = ''search_web'', call_arguments = ''q''\<rparr>] st =
   (None, st\<lparr>ops := ops st @ [Enqueue (ToolStart ''web_search'' ''Searching web for: x''),
                                 Enqueue (ToolEnd ''web_search'' ''Found 0 result(s)'')],
              history := history st @
                [ToolMessage ''call_1''
                   (''Web search performed for: '' @ dquote @ ''x'' @ dquote @ newline @ newline @
                    searchResultsText ''x'' [])],
              usedWebSearch := True\<rparr>)"
  by (simp add: runSearchWeb_def show_nat_0)

lemma tools_rounds:
  "conversationLoop (\<lambda>msgs maxTokens. Stream [Some demo_tool_delta] None)
           (\<lambda>arguments. Inr ''x'') (\<lambda>query maxResults. Inr []) g i st = (err, st') \<Longrightarrow>
   i < maxIterations \<Longrightarrow>
   err = None \<and>
   ops st' = ops st @ (if i = 0 then [Enqueue (Thinking ''Processing your question...'')] else []) @
             concat (replicate (maxIterations - i) tool_round_ops) \<and>
   usedWebSearch st' \<and>
   length (modelCalls st') = length (modelCalls st) + (maxIterations - i)"
proof (induction "maxIterations - i" arbitrary: i st)
  case 0
  then show ?case by simp
next
  case (Suc n)
  let ?create = "\<lambda>(msgs :: message list) (maxTokens :: nat). Stream [Some demo_tool_delta] None"
  let ?pq = "\<lambda>arguments :: string. (Inr ''x'' :: error + string)"
  let ?sw = "\<lambda>(query :: string) (maxResults :: nat). (Inr [] :: error + search_result list)"
  define st5 where "st5 = st\<lparr>modelCalls := modelCalls st @ [history st],
       ops := ops st @ (if i = 0 then [Enqueue (Thinking ''Processing your question...'')] else []) @
              tool_round_ops,
       history := history st @
                  [AssistantMessage None
                     [Some \<lparr>call_id = ''call_1'', call_name = ''search_web'', call_arguments = ''q''\<rparr>],
                   ToolMessage ''call_1''
                   (''Web search performed for: '' @ dquote @ ''x'' @ dquote @ newline @ newline @
                    searchResultsText ''x'' [])],
       usedWebSearch := True\<rparr>"
  have unf: "conversationLoop ?create ?pq ?sw g i st = conversationLoop ?create ?pq ?sw g (i + 1) st5"
    using Suc.prems(2)
    by (subst conversationLoop.simps)
       (simp add: Let_def demo_round_stream demo_tool_run st5_def tool_round_ops_def
          del: consumeStream.simps runToolCalls.simps)
  then have rec: "conversationLoop ?create ?pq ?sw g (i + 1) st5 = (err, st')"
    using Suc.prems(1) by simp
  have f5: "ops st5 = ops st @ (if i = 0 then [Enqueue (Thinking ''Processing your question...'')] else []) @
              tool_round_ops" "usedWebSearch st5" "length (modelCalls st5) = length (modelCalls st) + 1"
    by (simp_all add: st5_def)
  show ?case
  proof (cases "i + 1 < maxIterations")
    case True
    have "n = maxIterations - (i + 1)" using Suc.hyps(2) by simp
    from Suc.hyps(1)[OF this rec True]
    have ih: "err = None" "ops st' = ops st5 @ concat (replicate (maxIterations - (i + 1)) tool_round_ops)"
      "usedWebSearch st'" "length (modelCalls st') = length (modelCalls st5) + (maxIterations - (i + 1))"
      by simp_all
    have r: "replicate (maxIterations - i) tool_round_ops =
             tool_round_ops # replicate (maxIterations - (i + 1)) tool_round_ops"
      using Suc.prems(2) by (cases "maxIterations - i") simp_all
    show ?thesis using ih f5 Suc.prems(2) by (simp add: r)
  next
    case False
    then have e: "maxIterations - i = 1" using Suc.prems(2) by simp
    have "conversationLoop ?create ?pq ?sw g (i + 1) st5 = (None, st5)"
      using False by (rule conversationLoop_stop)
    then have "err = None" "st' = st5" using rec by simp_all
    then show ?thesis using f5 by (simp add: e)
  qed
qed

lemma runToolCalls_modelCalls:
  "runToolCalls parseQuery searchWeb toolCalls st = (err, st') \<Longrightarrow> modelCalls st' = modelCalls st"
proof (induction parseQuery searchWeb toolCalls st rule: runToolCalls.induct)
  case (1 parseQuery searchWeb st)
  then show ?case by simp
next
  case (2 parseQuery searchWeb rest st)
  then show ?case by simp
next
  case (3 parseQuery searchWeb toolCall rest st)
  show ?case
  proof (cases "call_name toolCall = ''search_web''")
    case False
    then show ?thesis using "3.IH"(2) "3.prems" by simp
  next
    case True
    obtain events reply used where r: "runSearchWeb parseQuery searchWeb toolCall = (events, reply, used)"
      by (cases "runSearchWeb parseQuery searchWeb toolCall") auto
    let ?st = "st\<lparr>ops := ops st @ map Enqueue events, history := history st @ [reply],
                    usedWebSearch := (usedWebSearch st \<or> used)\<rparr>"
    have run: "runToolCalls parseQuery searchWeb rest ?st = (err, st')"
      using "3.prems"(1) True r by simp
    from "3.IH"(1)[OF True r[symmetric] refl refl run]
    show ?thesis by simp
  qed
qed

lemma answerLoop_stop:
  "\<not> i < maxIterations \<Longrightarrow> answerLoop create pq sw g i st = (Inr ([], i), st)"
  by (subst answerLoop.simps) simp

lemma answerLoop_at_most:
  "answerLoop create pq sw g i st = (res, st') \<Longrightarrow>
   length (modelCalls st') \<le> length (modelCalls st) + (maxIterations - i)"
proof (induction "maxIterations - i" arbitrary: i st)
  case 0
  then have "\<not> i < maxIterations" by simp
  then have "answerLoop create pq sw g i st = (Inr ([], i), st)" by (rule answerLoop_stop)
  then show ?case using "0.prems" by simp
next
  case (Suc n)
  then have lt: "i < maxIterations" by simp
  define st2 where "st2 = st\<lparr>modelCalls := modelCalls st @ [history st]\<rparr>"
  have m2: "length (modelCalls st2) = length (modelCalls st) + 1" by (simp add: st2_def)
  have bound: "length (modelCalls st) + 1 \<le> length (modelCalls st) + (maxIterations - i)"
    using lt by simp
  have unf: "answerLoop create pq sw g i st =
     (case create (history st) (if g then 2000 else 1000) of
              Inl e \<Rightarrow> (Inl e, st2)
            | Inr None \<Rightarrow>
                (Inr (''I apologize, but I could not generate an answer.'', i + 1), st2)
            | Inr (Some reply) \<Rightarrow>
                (let st3 = st2\<lparr>history := history st2 @
                              [AssistantMessage (reply_content reply)
                                 (map Some (reply_tool_calls reply))]\<rparr>
                 in if length (reply_tool_calls reply) > 0 then
                      (case runToolCalls pq sw (map Some (reply_tool_calls reply)) st3 of
                         (Some e, st4) \<Rightarrow> (Inl e, st4)
                       | (None, st4) \<Rightarrow> answerLoop create pq sw g (i + 1) st4)
                    else
                      (Inr (if truthy (reply_content reply) then the (reply_content reply)
                            else ''I apologize, but I could not generate an answer.'',
                            i + 1), st3)))"
    unfolding st2_def
    by (subst answerLoop.simps) (simp only: lt if_True Let_def)
  show ?case
  proof (cases "create (history st) (if g then 2000 else 1000)")
    case (Inl e)
    then have "st' = st2" using Suc.prems(1) unf by simp
    then show ?thesis using m2 bound by simp
  next
    case (Inr reply')
    show ?thesis
    proof (cases reply')
      case None
      then have "st' = st2" using Suc.prems(1) unf Inr by simp
      then show ?thesis using m2 bound by simp
    next
      case (Some reply)
      define st3 where "st3 = st2\<lparr>history := history st2 @
                              [AssistantMessage (reply_content reply)
                                 (map Some (reply_tool_calls reply))]\<rparr>"
      have m3: "length (modelCalls st3) = length (modelCalls st) + 1" using m2 by (simp add: st3_def)
      show ?thesis
      proof (cases "length (reply_tool_calls reply) > 0")
        case False
        then have "st' = st3" using Suc.prems(1) unf Inr Some by (simp add: st3_def)
        then show ?thesis using m3 bound by simp
      next
        case True
        obtain e4 st4 where rt: "runToolCalls pq sw (map Some (reply_tool_calls reply)) st3 = (e4, st4)"
          by (cases "runToolCalls pq sw (map Some (reply_tool_calls reply)) st3") auto
        have m4: "modelCalls st4 = modelCalls st3" using rt by (rule runToolCalls_modelCalls)
        show ?thesis
        proof (cases e4)
          case (Some e)
          then have "st' = st4" using Suc.prems(1) unf Inr \<open>reply' = Some reply\<close> True rt
            by (simp add: st3_def)
          then show ?thesis using m4 m3 bound by simp
        next
          case None
          then have rec: "answerLoop create pq sw g (i + 1) st4 = (res, st')"
            using Suc.prems(1) unf Inr \<open>reply' = Some reply\<close> True rt by (simp add: st3_def)
          have "n = maxIterations - (i + 1)" using Suc.hyps(2) by simp
          from Suc.hyps(1)[OF this rec]
          have "length (modelCalls st') \<le> length (modelCalls st4) + (maxIterations - (i + 1))" .
          moreover have "length (modelCalls st4) = length (modelCalls st) + 1" using m4 m3 by simp
          ultimately show ?thesis using lt by arith
        qed
      qed
    qed
  qed
qed

lemma jsonPOST_at_most_5_completions: "length (jsonCompletions (jsonPOST env)) \<le> 5"
proof (cases "env_requestJson env")
  case (Inl e)
  then show ?thesis by (simp add: jsonPOST_def)
next
  case (Inr body)
  show ?thesis
  proof (cases "truthy (body_question body) \<and> env_openaiKey env")
    case False
    then show ?thesis using Inr by (auto simp: jsonPOST_def Let_def)
  next
    case True
    define question where "question = the (body_question body)"
    define limit where "limit = (case body_limit body of None \<Rightarrow> 5 | Some l \<Rightarrow> l)"
    define r where "r = retrieveContext (env_search env) (env_allChunksOf env) question
                       (body_documentIds body) limit"
    define st0 where "st0 = \<lparr>ops = [],
                           history = [SystemMessage (systemPrompt (contextText r) (isGeneral r)),
                                      UserMessage (userPrompt (contextText r) (isGeneral r) question)],
                           usedWebSearch = False, modelCalls = []\<rparr>"
    obtain res st where loop: "answerLoop (env_create env) (env_parseQuery env)
            (env_searchWeb env) (isGeneral r) 0 st0 = (res, st)"
      by (cases "answerLoop (env_create env) (env_parseQuery env)
            (env_searchWeb env) (isGeneral r) 0 st0") auto
    from answerLoop_at_most[OF loop]
    have "length (modelCalls st) \<le> 5" by (simp add: st0_def maxIterations_def)
    moreover have "jsonCompletions (jsonPOST env) = modelCalls st"
      using Inr True loop
      by (cases res) (auto simp: jsonPOST_def Let_def question_def limit_def r_def st0_def)
    ultimately show ?thesis by simp
  qed
qed

lemma json_tools_rounds:
  "answerLoop (\<lambda>msgs maxTokens.
         Inr (Some \<lparr>reply_content = None,
                     reply_tool_calls = [\<lparr>call_id = ''call_1'', call_name = ''search_web'',
                                           call_arguments = ''q''\<rparr>]\<rparr>))
           (\<lambda>arguments. Inr ''x'') (\<lambda>query maxResults. Inr []) g i st = (res, st') \<Longrightarrow>
   i < maxIterations \<Longrightarrow>
   res = Inr ([], maxIterations) \<and> usedWebSearch st' \<and>
   length (modelCalls st') = length (modelCalls st) + (maxIterations - i)"
proof (induction "maxIterations - i" arbitrary: i st)
  case 0
  then show ?case by simp
next
  case (Suc n)
  let ?create = "\<lambda>(msgs :: message list) (maxTokens :: nat).
         (Inr (Some \<lparr>reply_content = None,
                     reply_tool_calls = [\<lparr>call_id = ''call_1'', call_name = ''search_web'',
                                           call_arguments = ''q''\<rparr>]\<rparr>) :: error + assistant_reply option)"
  let ?pq = "\<lambda>arguments :: string. (Inr ''x'' :: error + string)"
  let ?sw = "\<lambda>(query :: string) (maxResults :: nat). (Inr [] :: error + search_result list)"
  define st4 where "st4 = st\<lparr>modelCalls := modelCalls st @ [history st],
       history := history st @
                  [AssistantMessage None
                     [Some \<lparr>call_id = ''call_1'', call_name = ''search_web'', call_arguments = ''q''\<rparr>]],
       ops := ops st @ tool_round_ops,
       history := history st @
                  [AssistantMessage None
                     [Some \<lparr>call_id = ''call_1'', call_name = ''search_web'', call_arguments = ''q''\<rparr>],
                   ToolMessage ''call_1''
                   (''Web search performed for: '' @ dquote @ ''x'' @ dquote @ newline @ newline @
                    searchResultsText ''x'' [])],
       usedWebSearch := True\<rparr>"
  have unf: "answerLoop ?create ?pq ?sw g i st = answerLoop ?create ?pq ?sw g (i + 1) st4"
    using Suc.prems(2)
    by (subst answerLoop.simps)
       (simp add: Let_def demo_tool_run st4_def tool_round_ops_def del: runToolCalls.simps)
  then have rec: "answerLoop ?create ?pq ?sw g (i + 1) st4 = (res, st')"
    using Suc.prems(1) by simp
  have f4: "usedWebSearch st4" "length (modelCalls st4) = length (modelCalls st) + 1"
    by (simp_all add: st4_def)
  show ?case
  proof (cases "i + 1 < maxIterations")
    case True
    have "n = maxIterations - (i + 1)" using Suc.hyps(2) by simp
    from Suc.hyps(1)[OF this rec True]
    have ih: "res = Inr ([], maxIterations)" "usedWebSearch st'"
      "length (modelCalls st') = length (modelCalls st4) + (maxIterations - (i + 1))"
      by simp_all
    show ?thesis using ih f4 Suc.prems(2) by simp
  next
    case False
    then have e: "maxIterations - i = 1" "i + 1 = maxIterations" using Suc.prems(2) by simp_all
    have "answerLoop ?create ?pq ?sw g (i + 1) st4 = (Inr ([], i + 1), st4)"
      using False by (rule answerLoop_stop)
    then have "res = Inr ([], i + 1)" "st' = st4" using rec by simp_all
    then show ?thesis using f4 e by simp
  qed
qed

lemma demo_retrieval:
  "retrieveContext demo_search demo_allChunks ''hi'' None 5 =
     \<lparr>contextChunks = [], contextText = [], isGeneral = False, storeCalls = [],
      searchFailed = False\<rparr>"
  by (simp add: retrieveContext_def)

text \<open>
  Claim C5, at the request whose model asks for a tool in each of the 5 rounds. Both
  handlers issue 5 chat-completion calls and no 6th. The JSON handler answers with the
  fixed fallback message. The streaming handler sends no fallback and no error: after
  the events of the five tool rounds it sends \<^verbatim>\<open>done\<close> and closes.
\<close>

theorem tools_on_all_five_rounds:
  "streamOps (streamPOST tools_stream_env) =
     Enqueue (Thinking ''Processing your question...'') # concat (replicate 5 tool_round_ops) @
     [Enqueue (Done False 0 True), Close] \<and>
   length (completions (streamPOST tools_stream_env)) = 5 \<and>
   response (jsonPOST tools_json_env) =
     JsonOk ''I apologize, but I encountered an issue while processing your request. Please try again.''
       False 0 True \<and>
   length (jsonCompletions (jsonPOST tools_json_env)) = 5"
proof -
  let ?st0 = "\<lparr>ops = [],
               history = [SystemMessage (systemPrompt [] False),
                          UserMessage (userPrompt [] False ''hi'')],
               usedWebSearch = False, modelCalls = []\<rparr>"
  obtain err st where loop: "conversationLoop (\<lambda>msgs maxTokens. Stream [Some demo_tool_delta] None)
           (\<lambda>arguments. Inr ''x'') (\<lambda>query maxResults. Inr []) False 0 ?st0 = (err, st)"
    by (cases "conversationLoop (\<lambda>msgs maxTokens. Stream [Some demo_tool_delta] None)
           (\<lambda>arguments. Inr ''x'') (\<lambda>query maxResults. Inr []) False 0 ?st0") auto
  have "0 < maxIterations" by (simp add: maxIterations_def)
  from tools_rounds[OF loop this]
  have s: "err = None" "ops st = Enqueue (Thinking ''Processing your question...'') #
             concat (replicate 5 tool_round_ops)" "usedWebSearch st" "length (modelCalls st) = 5"
    by (simp_all add: maxIterations_def)
  have a: "streamPOST tools_stream_env =
     \<lparr>streamOps = ops st @ [Enqueue (Done False 0 (usedWebSearch st)), Close],
      completions = modelCalls st\<rparr>"
    using loop s(1)
    by (simp add: streamPOST_def tools_stream_env_def demo_body_def truthy_def demo_retrieval
        documentSearchEvents_def Let_def)
  obtain res st' where jloop: "answerLoop (\<lambda>msgs maxTokens.
         Inr (Some \<lparr>reply_content = None,
                     reply_tool_calls = [\<lparr>call_id = ''call_1'', call_name = ''search_web'',
                                           call_arguments = ''q''\<rparr>]\<rparr>))
           (\<lambda>arguments. Inr ''x'') (\<lambda>query maxResults. Inr []) False 0 ?st0 = (res, st')"
    by (cases "answerLoop (\<lambda>msgs maxTokens.
         Inr (Some \<lparr>reply_content = None,
                     reply_tool_calls = [\<lparr>call_id = ''call_1'', call_name = ''search_web'',
                                           call_arguments = ''q''\<rparr>]\<rparr>))
           (\<lambda>arguments. Inr ''x'') (\<lambda>query maxResults. Inr []) False 0 ?st0") auto
  from json_tools_rounds[OF jloop \<open>0 < maxIterations\<close>]
  have j: "res = Inr ([], maxIterations)" "usedWebSearch st'" "length (modelCalls st') = 5"
    by (simp_all add: maxIterations_def)
  have b: "jsonPOST tools_json_env =
     \<lparr>response = JsonOk ''I apologize, but I encountered an issue while processing your request. Please try again.''
                   False 0 (usedWebSearch st'),
      jsonCompletions = modelCalls st'\<rparr>"
    using jloop j(1)
    by (simp add: jsonPOST_def tools_json_env_def demo_body_def truthy_def demo_retrieval Let_def)
  show ?thesis using s j by (simp add: a b)
qed

end
